theory Spec2Isabelle
  imports Complex_Main
begin

section \<open>Python values and errors\<close>

text \<open>
  The program computes with Python floats and NumPy arrays. The model computes over the
  reals (exact arithmetic): a Python list of numbers is a \<open>real list\<close>, and every
  exception the interpreter can raise in the modelled code is a value of \<open>py_error\<close>.
  A function that may raise returns \<open>py_error + 'a\<close>, with \<open>Inl\<close> for the exception.
\<close>

datatype py_error = IndexError | ZeroDivisionError | ValueError | UnboundLocalError | LinAlgError

definition ebind :: "py_error + 'a \<Rightarrow> ('a \<Rightarrow> py_error + 'b) \<Rightarrow> py_error + 'b" where
  "ebind m f = (case m of Inl e \<Rightarrow> Inl e | Inr x \<Rightarrow> f x)"

text \<open>The position that a Python index \<open>i\<close> denotes in a sequence of \<open>len\<close>
  elements: \<open>i\<close> itself from \<open>0\<close> to \<open>len - 1\<close>, \<open>len + i\<close> from \<open>-len\<close> to \<open>-1\<close>,
  and none otherwise.\<close>

definition py_index :: "nat \<Rightarrow> int \<Rightarrow> nat option" where
  "py_index len i =
     (if 0 \<le> i \<and> i < int len then Some (nat i)
      else if - int len \<le> i \<and> i < 0 then Some (nat (int len + i))
      else None)"

text \<open>\<open>xs[i]\<close> and \<open>xs[i] = v\<close> (returning the updated list) on a Python list or a
  one-dimensional array: IndexError when the index is out of range.\<close>

definition getitem :: "'a list \<Rightarrow> int \<Rightarrow> py_error + 'a" where
  "getitem xs i =
     (case py_index (length xs) i of None \<Rightarrow> Inl IndexError | Some j \<Rightarrow> Inr (xs ! j))"

definition setitem :: "'a list \<Rightarrow> int \<Rightarrow> 'a \<Rightarrow> py_error + 'a list" where
  "setitem xs i v =
     (case py_index (length xs) i of None \<Rightarrow> Inl IndexError | Some j \<Rightarrow> Inr (xs[j := v]))"

text \<open>\<open>p / q\<close> on Python numbers: a zero divisor raises ZeroDivisionError. (On NumPy
  scalars the quotient by zero is an infinity or a NaN with a warning; the reals have
  neither, and wherever the program divides NumPy scalars the divisor is a pivot of the
  grid matrix, shown below to be negative.)\<close>

definition py_div :: "real \<Rightarrow> real \<Rightarrow> py_error + real" where
  "py_div p q = (if q = 0 then Inl ZeroDivisionError else Inr (p / q))"

section \<open>Tridiagonal LU factorisation and the two substitutions\<close>

text \<open>
  \<^verbatim>\<open>
  def lutri(a, b, c):
      n = len(a)
      l, v = [], [a[0]]
      for i in range(1, n):
          l.append(b[i - 1] / v[i - 1])
          v.append(a[i] - l[i - 1] * c[i - 1])
      return [l, v]
  \<close>
  The loop is a recursion on the list of the indices \<open>range(1, n)\<close>, with the pair
  \<open>(l, v)\<close> as its state.
\<close>

fun lutri_loop ::
  "real list \<Rightarrow> real list \<Rightarrow> real list \<Rightarrow> nat list \<Rightarrow> real list \<times> real list
     \<Rightarrow> py_error + (real list \<times> real list)" where
  "lutri_loop a b c [] (l, v) = Inr (l, v)"
| "lutri_loop a b c (i # is) (l, v) =
     ebind (getitem b (int i - 1)) (\<lambda>bi.
     ebind (getitem v (int i - 1)) (\<lambda>vi.
     ebind (py_div bi vi) (\<lambda>q.
     ebind (getitem a (int i)) (\<lambda>ai.
     ebind (getitem (l @ [q]) (int i - 1)) (\<lambda>li.
     ebind (getitem c (int i - 1)) (\<lambda>ci.
       lutri_loop a b c is (l @ [q], v @ [ai - li * ci])))))))"

definition lutri ::
  "real list \<Rightarrow> real list \<Rightarrow> real list \<Rightarrow> py_error + (real list \<times> real list)" where
  "lutri a b c =
     ebind (getitem a 0) (\<lambda>a0. lutri_loop a b c [1..<length a] ([], [a0]))"

text \<open>
  \<^verbatim>\<open>
  def descente(l, z):
      n = len(z)
      y = [z[0]]
      for i in range(1, n):
          y.append(z[i] - l[i - 1] * y[i - 1])
      return y
  \<close>
\<close>

fun descente_loop ::
  "real list \<Rightarrow> real list \<Rightarrow> nat list \<Rightarrow> real list \<Rightarrow> py_error + real list" where
  "descente_loop l z [] y = Inr y"
| "descente_loop l z (i # is) y =
     ebind (getitem z (int i)) (\<lambda>zi.
     ebind (getitem l (int i - 1)) (\<lambda>li.
     ebind (getitem y (int i - 1)) (\<lambda>yi.
       descente_loop l z is (y @ [zi - li * yi]))))"

definition descente :: "real list \<Rightarrow> real list \<Rightarrow> py_error + real list" where
  "descente l z = ebind (getitem z 0) (\<lambda>z0. descente_loop l z [1..<length z] [z0])"

text \<open>
  \<^verbatim>\<open>
  def remontee(v, c, y):
      n = len(y)
      x = [y[n - 1] / v[n - 1]]
      for i in range(n - 2, -1, -1):
          x.insert(0, (y[i] - c[i] * x[0]) / v[i])
      return x
  \<close>
  \<open>range(n - 2, -1, -1)\<close> is the list \<open>n - 2, ..., 0\<close>, empty when \<open>n \<le> 1\<close>.
\<close>

fun remontee_loop ::
  "real list \<Rightarrow> real list \<Rightarrow> real list \<Rightarrow> nat list \<Rightarrow> real list \<Rightarrow> py_error + real list" where
  "remontee_loop v c y [] x = Inr x"
| "remontee_loop v c y (i # is) x =
     ebind (getitem y (int i)) (\<lambda>yi.
     ebind (getitem c (int i)) (\<lambda>ci.
     ebind (getitem x 0) (\<lambda>x0.
     ebind (getitem v (int i)) (\<lambda>vi.
     ebind (py_div (yi - ci * x0) vi) (\<lambda>q.
       remontee_loop v c y is (q # x))))))"

definition remontee :: "real list \<Rightarrow> real list \<Rightarrow> real list \<Rightarrow> py_error + real list" where
  "remontee v c y =
     (let n = int (length y) in
      ebind (getitem y (n - 1)) (\<lambda>yn.
      ebind (getitem v (n - 1)) (\<lambda>vn.
      ebind (py_div yn vn) (\<lambda>q.
        remontee_loop v c y (rev [0..<length y - 1]) [q]))))"

section \<open>The assemblers\<close>

text \<open>
  \<^verbatim>\<open>
  def solve_debye_huckel(n, mu):
      h = 10 / n
      x = [1] * n
      b, a, c, z = [0] * (n - 1), [-(2 + h ** 2)] * n, [0] * (n - 1), [0] * n
      c[0], z[0] = 2, mu * h * (h - 2)
      for i in range(1, n - 1):
          xi = 1 + i * h
          b[i - 1] = 1 - h / (2 * xi)
          c[i] = 1 + h / (2 * xi)
          x[i] = xi
      xn = 1 + (n - 1) * h
      b[n - 2] = 1 - h / (2 * xn)
      x[n - 1] = xn
      l, v = lutri(a, b, c)
      y = descente(l, z)
      u = remontee(v, c, y)
      return x, np.array(u), [b, a, c]
  \<close>
  The grid size \<open>n\<close> is a natural number (the callers pass positive integers); the
  index expressions \<open>n - 2\<close> and \<open>n - 1\<close> are computed over the integers, as Python
  does, and go through \<open>setitem\<close>. The function is modelled in two stages: the
  assembly of the system (\<open>dh_assemble\<close>, everything before the call of \<open>lutri\<close>)
  and the solve.
\<close>

fun dh_loop ::
  "real \<Rightarrow> nat list \<Rightarrow> real list \<times> real list \<times> real list
     \<Rightarrow> py_error + (real list \<times> real list \<times> real list)" where
  "dh_loop h [] (b, c, x) = Inr (b, c, x)"
| "dh_loop h (i # ks) (b, c, x) =
     (let xi = 1 + real i * h in
      ebind (py_div h (2 * xi)) (\<lambda>q.
      ebind (setitem b (int i - 1) (1 - q)) (\<lambda>b.
      ebind (py_div h (2 * xi)) (\<lambda>q.
      ebind (setitem c (int i) (1 + q)) (\<lambda>c.
      ebind (setitem x (int i) xi) (\<lambda>x.
        dh_loop h ks (b, c, x)))))))"

definition dh_assemble ::
  "nat \<Rightarrow> real \<Rightarrow> py_error + (real list \<times> real list \<times> real list \<times> real list \<times> real list)" where
  "dh_assemble n mu =
     ebind (py_div 10 (real n)) (\<lambda>h.
     let x = replicate n 1;
         b = replicate (n - 1) 0; a = replicate n (- (2 + h ^ 2));
         c = replicate (n - 1) 0; z = replicate n 0
     in
     ebind (setitem c 0 2) (\<lambda>c.
     ebind (setitem z 0 (mu * h * (h - 2))) (\<lambda>z.
     ebind (dh_loop h [1..<n - 1] (b, c, x)) (\<lambda>(b, c, x).
     let xn = 1 + (real n - 1) * h in
     ebind (py_div h (2 * xn)) (\<lambda>q.
     ebind (setitem b (int n - 2) (1 - q)) (\<lambda>b.
     ebind (setitem x (int n - 1) xn) (\<lambda>x.
       Inr (x, b, a, c, z))))))))"

definition solve_debye_huckel ::
  "nat \<Rightarrow> real \<Rightarrow> py_error + (real list \<times> real list \<times> (real list \<times> real list \<times> real list))" where
  "solve_debye_huckel n mu =
     ebind (dh_assemble n mu) (\<lambda>(x, b, a, c, z).
     ebind (lutri a b c) (\<lambda>(l, v).
     ebind (descente l z) (\<lambda>y.
     ebind (remontee v c y) (\<lambda>u.
       Inr (x, u, (b, a, c))))))"

text \<open>
  \<^verbatim>\<open>
  def solve_poisson_boltzmann(u, n, mu):
      h = 10 / n
      g = lambda x: np.sinh(x) - x
      x = [1] * n
      b, a, c, z = [0] * (n - 1), [-(2 + h ** 2)] * n, [0] * (n - 1), [0] * n
      c[0], z[0] = 2, (h ** 2) * g(u[0]) + mu * h * (h - 2)
      for i in range(1, n - 1):
          xi = 1 + i * h
          b[i - 1] = 1 - h / (2 * xi)
          c[i] = 1 + h / (2 * xi)
          z[i] = (h ** 2) * g(u[i])
          x[i] = xi
      xn = 1 + (n - 1) * h
      b[n - 2] = 1 - h / (2 * xn)
      z[n - 1] = (h ** 2) * g(u[n - 1])
      x[n - 1] = xn
      l, v = lutri(a, b, c)
      y = descente(l, z)
      u_suivant = remontee(v, c, y)
      return x, np.array(u_suivant), np.array(z)
  \<close>
\<close>

definition g :: "real \<Rightarrow> real" where
  "g t = sinh t - t"

fun pb_loop ::
  "real \<Rightarrow> real list \<Rightarrow> nat list \<Rightarrow> real list \<times> real list \<times> real list \<times> real list
     \<Rightarrow> py_error + (real list \<times> real list \<times> real list \<times> real list)" where
  "pb_loop h u [] (b, c, z, x) = Inr (b, c, z, x)"
| "pb_loop h u (i # ks) (b, c, z, x) =
     (let xi = 1 + real i * h in
      ebind (py_div h (2 * xi)) (\<lambda>q.
      ebind (setitem b (int i - 1) (1 - q)) (\<lambda>b.
      ebind (py_div h (2 * xi)) (\<lambda>q.
      ebind (setitem c (int i) (1 + q)) (\<lambda>c.
      ebind (getitem u (int i)) (\<lambda>ui.
      ebind (setitem z (int i) (h ^ 2 * g ui)) (\<lambda>z.
      ebind (setitem x (int i) xi) (\<lambda>x.
        pb_loop h u ks (b, c, z, x)))))))))"

definition pb_assemble ::
  "real list \<Rightarrow> nat \<Rightarrow> real
     \<Rightarrow> py_error + (real list \<times> real list \<times> real list \<times> real list \<times> real list)" where
  "pb_assemble u n mu =
     ebind (py_div 10 (real n)) (\<lambda>h.
     let x = replicate n 1;
         b = replicate (n - 1) 0; a = replicate n (- (2 + h ^ 2));
         c = replicate (n - 1) 0; z = replicate n 0
     in
     ebind (getitem u 0) (\<lambda>u0.
     ebind (setitem c 0 2) (\<lambda>c.
     ebind (setitem z 0 (h ^ 2 * g u0 + mu * h * (h - 2))) (\<lambda>z.
     ebind (pb_loop h u [1..<n - 1] (b, c, z, x)) (\<lambda>(b, c, z, x).
     let xn = 1 + (real n - 1) * h in
     ebind (py_div h (2 * xn)) (\<lambda>q.
     ebind (setitem b (int n - 2) (1 - q)) (\<lambda>b.
     ebind (getitem u (int n - 1)) (\<lambda>un.
     ebind (setitem z (int n - 1) (h ^ 2 * g un)) (\<lambda>z.
     ebind (setitem x (int n - 1) xn) (\<lambda>x.
       Inr (x, b, a, c, z)))))))))))"

definition solve_poisson_boltzmann ::
  "real list \<Rightarrow> nat \<Rightarrow> real \<Rightarrow> py_error + (real list \<times> real list \<times> real list)" where
  "solve_poisson_boltzmann u n mu =
     ebind (pb_assemble u n mu) (\<lambda>(x, b, a, c, z).
     ebind (lutri a b c) (\<lambda>(l, v).
     ebind (descente l z) (\<lambda>y.
     ebind (remontee v c y) (\<lambda>u_suivant.
       Inr (x, u_suivant, z)))))"

section \<open>Dense matrices and vectors\<close>

text \<open>
  \<^verbatim>\<open>
  def tridiag(diags, k1=-1, k2=0, k3=1):
      b, a, c = diags
      return np.diag(b, k1) + np.diag(a, k2) + np.diag(c, k3)
  \<close>
  A two-dimensional array is the list of its rows. \<open>np.diag(d, k)\<close> is the square
  matrix of size \<open>len(d) + |k|\<close> with \<open>d\<close> on its \<open>k\<close>-th diagonal; the sum of two
  square arrays is entrywise when the shapes agree, broadcasts a 1 x 1 operand, and
  raises ValueError otherwise. No caller overrides \<open>k1, k2, k3\<close>.
\<close>

definition np_diag :: "real list \<Rightarrow> int \<Rightarrow> real list list" where
  "np_diag d k =
     (let m = length d + nat \<bar>k\<bar>
      in map (\<lambda>r. map (\<lambda>s. if int s - int r = k then d ! min r s else 0) [0..<m]) [0..<m])"

definition np_add :: "real list list \<Rightarrow> real list list \<Rightarrow> py_error + real list list" where
  "np_add A B =
     (if length A = length B then Inr (map2 (map2 (+)) A B)
      else if length A = 1 then Inr (map (map (\<lambda>y. A ! 0 ! 0 + y)) B)
      else if length B = 1 then Inr (map (map (\<lambda>x. x + B ! 0 ! 0)) A)
      else Inl ValueError)"

definition tridiag :: "real list \<times> real list \<times> real list \<Rightarrow> py_error + real list list" where
  "tridiag diags =
     (case diags of (b, a, c) \<Rightarrow>
        ebind (np_add (np_diag b (- 1)) (np_diag a 0)) (\<lambda>s. np_add s (np_diag c 1)))"

text \<open>\<open>A.dot(u)\<close> for a square array \<open>A\<close> and a one-dimensional \<open>u\<close>: the shapes
  must agree.\<close>

definition dot :: "real list list \<Rightarrow> real list \<Rightarrow> py_error + real list" where
  "dot A u =
     (if length A = length u \<and> list_all (\<lambda>row. length row = length u) A
      then Inr (map (\<lambda>row. sum_list (map2 (*) row u)) A)
      else Inl ValueError)"

text \<open>\<open>p - q\<close> on one-dimensional arrays: entrywise, a one-element operand is
  broadcast.\<close>

definition np_sub :: "real list \<Rightarrow> real list \<Rightarrow> py_error + real list" where
  "np_sub p q =
     (if length p = length q then Inr (map2 (-) p q)
      else if length p = 1 then Inr (map (\<lambda>t. p ! 0 - t) q)
      else if length q = 1 then Inr (map (\<lambda>t. t - q ! 0) p)
      else Inl ValueError)"

text \<open>\<open>np.linalg.norm(p, np.inf)\<close>: the largest absolute value of an entry; the
  reduction raises ValueError on an empty array.\<close>

definition norm_inf :: "real list \<Rightarrow> py_error + real" where
  "norm_inf p = (if p = [] then Inl ValueError else Inr (Max (set (map abs p))))"

section \<open>The fixed-point iteration\<close>

text \<open>
  \<^verbatim>\<open>
  def calcul_uk0(mu=1):
      mu1, mu2 = 10e-12, 10e-9
      n = 1000
      _, u, diags = solve_debye_huckel(n, mu)
      A = tridiag(diags)
      ecart1 = A.dot(u)
      ecart2 = u
      k = 0
      while not (
          k > 200
          or (
              np.linalg.norm(ecart1, np.inf) < mu1
              and np.linalg.norm(ecart2, np.inf) < mu2
          )
      ):
          x, u_suivant, z = solve_poisson_boltzmann(u, n, mu)
          ecart1 = A.dot(u_suivant) - z
          ecart2 = u_suivant - u
          u = u_suivant
          k += 1
      return x, u, k
  \<close>
  The local \<open>x\<close> is bound only by the loop body, so it is an option in the state of
  the loop, and \<open>return x, u, k\<close> raises UnboundLocalError when it is still unbound.
  The literals \<open>10e-12\<close> and \<open>10e-9\<close> are the numbers \<open>1 / 10 ^ 11\<close> and
  \<open>1 / 10 ^ 8\<close>.
\<close>

record uk0_state =
  st_x :: "real list option"
  st_u :: "real list"
  st_ecart1 :: "real list"
  st_ecart2 :: "real list"
  st_k :: nat

definition mu1 :: real where
  "mu1 = 10 / 10 ^ 12"

definition mu2 :: real where
  "mu2 = 10 / 10 ^ 9"

text \<open>The loop test, \<open>True\<close> when the loop is left; \<open>or\<close> and \<open>and\<close> evaluate
  their right operand only when needed.\<close>

definition uk0_stop :: "uk0_state \<Rightarrow> py_error + bool" where
  "uk0_stop s =
     (if st_k s > 200 then Inr True
      else ebind (norm_inf (st_ecart1 s)) (\<lambda>e1.
           if e1 < mu1 then ebind (norm_inf (st_ecart2 s)) (\<lambda>e2. Inr (e2 < mu2))
           else Inr False))"

definition uk0_body :: "real list list \<Rightarrow> nat \<Rightarrow> real \<Rightarrow> uk0_state \<Rightarrow> py_error + uk0_state" where
  "uk0_body A n mu s =
     ebind (solve_poisson_boltzmann (st_u s) n mu) (\<lambda>(x, u_suivant, z).
     ebind (dot A u_suivant) (\<lambda>au.
     ebind (np_sub au z) (\<lambda>ecart1.
     ebind (np_sub u_suivant (st_u s)) (\<lambda>ecart2.
       Inr \<lparr>st_x = Some x, st_u = u_suivant, st_ecart1 = ecart1, st_ecart2 = ecart2,
            st_k = st_k s + 1\<rparr>))))"

function uk0_loop :: "real list list \<Rightarrow> nat \<Rightarrow> real \<Rightarrow> uk0_state \<Rightarrow> py_error + uk0_state" where
  "uk0_loop A n mu s =
     (case uk0_stop s of
        Inl e \<Rightarrow> Inl e
      | Inr stop \<Rightarrow>
          if stop then Inr s
          else (case uk0_body A n mu s of
                  Inl e \<Rightarrow> Inl e
                | Inr s' \<Rightarrow> uk0_loop A n mu s'))"
  by pat_completeness auto
termination
proof (relation "measure (\<lambda>(A, n, mu, s). 201 - st_k s)")
  show "wf (measure (\<lambda>(A, n, mu, s). 201 - st_k s))" by simp
next
  fix A n mu s stop s'
  assume stop: "uk0_stop s = Inr stop" "\<not> stop" and body: "uk0_body A n mu s = Inr s'"
  from stop have "st_k s \<le> 200"
    by (auto simp: uk0_stop_def split: if_splits)
  moreover from body have "st_k s' = st_k s + 1"
    by (auto simp: uk0_body_def ebind_def split: sum.splits prod.splits)
  ultimately show "((A, n, mu, s'), (A, n, mu, s)) \<in> measure (\<lambda>(A, n, mu, s). 201 - st_k s)"
    by simp
qed

definition calcul_uk0 :: "real \<Rightarrow> py_error + (real list \<times> real list \<times> nat)" where
  "calcul_uk0 mu =
     (let n = 1000 in
      ebind (solve_debye_huckel n mu) (\<lambda>(_, u, diags).
      ebind (tridiag diags) (\<lambda>A.
      ebind (dot A u) (\<lambda>ecart1.
      ebind (uk0_loop A n mu
               \<lparr>st_x = None, st_u = u, st_ecart1 = ecart1, st_ecart2 = u, st_k = 0\<rparr>) (\<lambda>s.
        case st_x s of
          None \<Rightarrow> Inl UnboundLocalError
        | Some x \<Rightarrow> Inr (x, st_u s, st_k s))))))"

section \<open>The search for the divergence threshold\<close>

text \<open>
  \<^verbatim>\<open>
  def find_convergence_mu():
      debut = 0
      fin = 7
      ecart = fin - debut
      while ecart > 10e-6:
          m = (debut + fin) / 2
          _, _ , k = calcul_uk0(mu=m)
          if k > 200:
              fin = m
          else:
              debut = m
          ecart = fin - debut
      return m
  \<close>
  The loop is modelled for any oracle in the place of \<open>calcul_uk0\<close>; the program's
  function is the instance at \<open>calcul_uk0\<close>. The local \<open>m\<close> is bound only by the loop
  body. The literal \<open>10e-6\<close> is the number \<open>1 / 10 ^ 5\<close>.
\<close>

type_synonym count_fn = "real \<Rightarrow> py_error + (real list \<times> real list \<times> nat)"

definition find_body ::
  "count_fn \<Rightarrow> real \<times> real \<times> real \<times> real option \<Rightarrow> py_error + (real \<times> real \<times> real \<times> real option)" where
  "find_body calc s =
     (case s of (debut, fin, ecart, _) \<Rightarrow>
        let m = (debut + fin) / 2 in
        ebind (calc m) (\<lambda>(_, _, k).
        let (debut, fin) = (if k > 200 then (debut, m) else (m, fin)) in
        Inr (debut, fin, fin - debut, Some m)))"

function find_loop ::
  "count_fn \<Rightarrow> real \<times> real \<times> real \<times> real option \<Rightarrow> py_error + (real \<times> real \<times> real \<times> real option)" where
  "find_loop calc s =
     (case s of (debut, fin, ecart, m) \<Rightarrow>
        if ecart > 10 / 10 ^ 6 then
          (case find_body calc s of
             Inl e \<Rightarrow> Inl e
           | Inr s' \<Rightarrow> find_loop calc s')
        else Inr s)"
  by pat_completeness auto
termination
proof (relation "measure (\<lambda>(calc, debut, fin, ecart, m).
          if ecart > 10 / 10 ^ 6 then Suc (nat \<lceil>(fin - debut) * 10 ^ 5\<rceil>) else 0)")
  show "wf (measure (\<lambda>(calc :: count_fn, debut :: real, fin :: real, ecart :: real, m :: real option).
          if ecart > 10 / 10 ^ 6 then Suc (nat \<lceil>(fin - debut) * 10 ^ 5\<rceil>) else 0))"
    by simp
next
  fix calc :: count_fn and s s' :: "real \<times> real \<times> real \<times> real option"
    and debut fin ecart :: real and m :: "real option" and x2 y
  assume s: "(debut, x2) = s" "(fin, y) = x2" "(ecart, m) = y"
    and guard: "10 / 10 ^ 6 < ecart" and body: "find_body calc s = Inr s'"
  obtain debut' fin' ecart' m' where s': "s' = (debut', fin', ecart', m')"
    by (cases s') auto
  from body s s' have w: "ecart' = (fin - debut) / 2" and e: "ecart' = fin' - debut'"
    by (auto simp: find_body_def ebind_def Let_def split: sum.splits prod.splits if_splits)
  have "nat \<lceil>ecart' * 10 ^ 5\<rceil> < nat \<lceil>(fin - debut) * 10 ^ 5\<rceil>" if "10 / 10 ^ 6 < ecart'"
  proof -
    from that have big: "1 < ecart' * 10 ^ 5" by simp
    have "real_of_int \<lceil>ecart' * 10 ^ 5\<rceil> < ecart' * 10 ^ 5 + 1" by linarith
    also have "\<dots> < 2 * (ecart' * 10 ^ 5)" using big by simp
    also have "\<dots> = (fin - debut) * 10 ^ 5" using w by simp
    also have "\<dots> \<le> real_of_int \<lceil>(fin - debut) * 10 ^ 5\<rceil>" by linarith
    finally have "\<lceil>ecart' * 10 ^ 5\<rceil> < \<lceil>(fin - debut) * 10 ^ 5\<rceil>" by simp
    moreover have "0 < \<lceil>ecart' * 10 ^ 5\<rceil>" using big by linarith
    ultimately show ?thesis by linarith
  qed
  then show "((calc, s'), (calc, s)) \<in> measure (\<lambda>(calc, debut, fin, ecart, m).
          if ecart > 10 / 10 ^ 6 then Suc (nat \<lceil>(fin - debut) * 10 ^ 5\<rceil>) else 0)"
    using s s' guard e by auto
qed

definition find_convergence_mu_with :: "count_fn \<Rightarrow> py_error + real" where
  "find_convergence_mu_with calc =
     (let debut = 0; fin = 7; ecart = fin - debut in
      ebind (find_loop calc (debut, fin, ecart, None)) (\<lambda>(_, _, _, m).
        case m of None \<Rightarrow> Inl UnboundLocalError | Some v \<Rightarrow> Inr v))"

definition find_convergence_mu :: "py_error + real" where
  "find_convergence_mu = find_convergence_mu_with calcul_uk0"

section \<open>The Newton step\<close>

text \<open>
  \<^verbatim>\<open>
  def solve_poisson_boltzmann_newton(u, n, mu):
      h = 10 / n
      x = [1] * n
      b, a, c, F = [0] * (n - 1), -2 - (h ** 2) * np.cosh(u), [0] * (n - 1), [0] * n
      F[0] = - 2 * u[0] - (h ** 2) * np.sinh(u[0]) + 2 * u[1] + mu * h * (2 - h)
      for i in range(1, n - 1):
          xi = 1 + i * h
          bi = 1 - h / (2 * xi)
          ci = 1 + h / (2 * xi)
          b[i - 1] = bi
          c[i] = ci
          F[i] = bi * u[i - 1] - 2 * u[i] - (h ** 2) * np.sinh(u[i]) + ci * u[i + 1]
          x[i] = xi
      xn = 1 + (n - 1) * h
      bn = 1 - h / (2 * xn)
      b[n - 2] = bn
      F[n - 1] = bn * u[n - 2] - 2 * u[n - 1] - (h ** 2) * np.sinh(u[n - 1])
      x[n - 1] = xn
      print(F)
      F = np.array(F)
      inv_Jk = np.linalg.inv(tridiag([b, a, c]))
      u_suivant = u - inv_Jk.dot(F)
      return x, u_suivant, F
  \<close>
  \<open>np.linalg.inv\<close> is a library function: the model takes it as the parameter
  \<open>linalg_inv\<close>. The assembly of the Jacobian and of the residual
  (\<open>newton_assemble\<close>) is everything before the call of \<open>tridiag\<close>.
\<close>

fun newton_loop ::
  "real \<Rightarrow> real list \<Rightarrow> nat list \<Rightarrow> real list \<times> real list \<times> real list \<times> real list
     \<Rightarrow> py_error + (real list \<times> real list \<times> real list \<times> real list)" where
  "newton_loop h u [] (b, c, F, x) = Inr (b, c, F, x)"
| "newton_loop h u (i # ks) (b, c, F, x) =
     (let xi = 1 + real i * h in
      ebind (py_div h (2 * xi)) (\<lambda>q. let bi = 1 - q in
      ebind (py_div h (2 * xi)) (\<lambda>q. let ci = 1 + q in
      ebind (setitem b (int i - 1) bi) (\<lambda>b.
      ebind (setitem c (int i) ci) (\<lambda>c.
      ebind (getitem u (int i - 1)) (\<lambda>um.
      ebind (getitem u (int i)) (\<lambda>ui.
      ebind (getitem u (int i)) (\<lambda>ui'.
      ebind (getitem u (int i + 1)) (\<lambda>up.
      ebind (setitem F (int i) (bi * um - 2 * ui - h ^ 2 * sinh ui' + ci * up)) (\<lambda>F.
      ebind (setitem x (int i) xi) (\<lambda>x.
        newton_loop h u ks (b, c, F, x))))))))))))"

definition newton_assemble ::
  "real list \<Rightarrow> nat \<Rightarrow> real
     \<Rightarrow> py_error + (real list \<times> real list \<times> real list \<times> real list \<times> real list)" where
  "newton_assemble u n mu =
     ebind (py_div 10 (real n)) (\<lambda>h.
     let x = replicate n 1;
         b = replicate (n - 1) 0; a = map (\<lambda>t. - 2 - h ^ 2 * cosh t) u;
         c = replicate (n - 1) 0; F = replicate n 0
     in
     ebind (getitem u 0) (\<lambda>u0.
     ebind (getitem u 0) (\<lambda>u0'.
     ebind (getitem u 1) (\<lambda>u1.
     ebind (setitem F 0 (- 2 * u0 - h ^ 2 * sinh u0' + 2 * u1 + mu * h * (2 - h))) (\<lambda>F.
     ebind (newton_loop h u [1..<n - 1] (b, c, F, x)) (\<lambda>(b, c, F, x).
     let xn = 1 + (real n - 1) * h in
     ebind (py_div h (2 * xn)) (\<lambda>q. let bn = 1 - q in
     ebind (setitem b (int n - 2) bn) (\<lambda>b.
     ebind (getitem u (int n - 2)) (\<lambda>um.
     ebind (getitem u (int n - 1)) (\<lambda>un.
     ebind (getitem u (int n - 1)) (\<lambda>un'.
     ebind (setitem F (int n - 1) (bn * um - 2 * un - h ^ 2 * sinh un')) (\<lambda>F.
     ebind (setitem x (int n - 1) xn) (\<lambda>x.
       Inr (x, b, a, c, F))))))))))))))"

definition solve_poisson_boltzmann_newton ::
  "(real list list \<Rightarrow> py_error + real list list) \<Rightarrow> real list \<Rightarrow> nat \<Rightarrow> real
     \<Rightarrow> py_error + (real list \<times> real list \<times> real list)" where
  "solve_poisson_boltzmann_newton linalg_inv u n mu =
     ebind (newton_assemble u n mu) (\<lambda>(x, b, a, c, F).
     ebind (tridiag (b, a, c)) (\<lambda>J.
     ebind (linalg_inv J) (\<lambda>inv_Jk.
     ebind (dot inv_Jk F) (\<lambda>d.
     ebind (np_sub u d) (\<lambda>u_suivant.
       Inr (x, u_suivant, F))))))"

section \<open>Auxiliary notions for the proofs\<close>

text \<open>The entry \<open>(r, s)\<close> of the tridiagonal matrix with sub-diagonal \<open>b\<close>, diagonal
  \<open>a\<close> and super-diagonal \<open>c\<close>, and the \<open>r\<close>-th component of its product with a
  vector \<open>x\<close>.\<close>

definition tri_entry :: "real list \<Rightarrow> real list \<Rightarrow> real list \<Rightarrow> nat \<Rightarrow> nat \<Rightarrow> real" where
  "tri_entry b a c r s =
     (if r = Suc s then b ! s else 0) + (if s = r then a ! r else 0) + (if s = Suc r then c ! r else 0)"

definition tri_row :: "real list \<Rightarrow> real list \<Rightarrow> real list \<Rightarrow> real list \<Rightarrow> nat \<Rightarrow> real" where
  "tri_row b a c x r =
     (if 0 < r then b ! (r - 1) * x ! (r - 1) else 0) + a ! r * x ! r
       + (if Suc r < length a then c ! r * x ! Suc r else 0)"

text \<open>The closed forms of the grid and of the coefficients that the assemblers compute,
  for the spacing \<open>h = 10 / n\<close>.\<close>

definition grid_h :: "nat \<Rightarrow> real" where
  "grid_h n = 10 / real n"

definition grid_x :: "nat \<Rightarrow> nat \<Rightarrow> real" where
  "grid_x n i = 1 + real i * grid_h n"

definition grid_b :: "nat \<Rightarrow> nat \<Rightarrow> real" where
  "grid_b n j = 1 - grid_h n / (2 * grid_x n (Suc j))"

definition grid_c :: "nat \<Rightarrow> nat \<Rightarrow> real" where
  "grid_c n i = (if i = 0 then 2 else 1 + grid_h n / (2 * grid_x n i))"

definition pb_z :: "real list \<Rightarrow> nat \<Rightarrow> real \<Rightarrow> nat \<Rightarrow> real" where
  "pb_z u n mu i =
     grid_h n ^ 2 * g (u ! i) + (if i = 0 then mu * grid_h n * (grid_h n - 2) else 0)"



text \<open>The diagonals of the grid matrix, and the \<open>r\<close>-th component of its product with a
  vector.\<close>

definition grid_diags :: "nat \<Rightarrow> real list \<times> real list \<times> real list" where
  "grid_diags n =
     (map (grid_b n) [0..<n - 1], replicate n (- (2 + grid_h n ^ 2)), map (grid_c n) [0..<n - 1])"

definition grid_row :: "nat \<Rightarrow> real list \<Rightarrow> nat \<Rightarrow> real" where
  "grid_row n x r =
     tri_row (map (grid_b n) [0..<n - 1]) (replicate n (- (2 + grid_h n ^ 2)))
       (map (grid_c n) [0..<n - 1]) x r"

text \<open>What the last pass of the loop of \<open>calcul_uk0\<close> has left in the state: nothing
  before the first pass; afterwards the grid, the new iterate and the two residuals
  computed from the previous iterate.\<close>

definition uk0_last :: "real list list \<Rightarrow> nat \<Rightarrow> real \<Rightarrow> uk0_state \<Rightarrow> bool" where
  "uk0_last A n mu s =
     (case st_x s of
        None \<Rightarrow> st_k s = 0
      | Some x \<Rightarrow>
          0 < st_k s \<and>
          (\<exists>u_prev z au. solve_poisson_boltzmann u_prev n mu = Inr (x, st_u s, z) \<and>
             dot A (st_u s) = Inr au \<and> np_sub au z = Inr (st_ecart1 s) \<and>
             np_sub (st_u s) u_prev = Inr (st_ecart2 s)))"

text \<open>The states of the loop on a grid of \<open>n\<close> points.\<close>

definition uk0_wf :: "nat \<Rightarrow> uk0_state \<Rightarrow> bool" where
  "uk0_wf n s \<longleftrightarrow>
     length (st_u s) = n \<and> st_ecart1 s \<noteq> [] \<and> st_ecart2 s \<noteq> [] \<and>
     (st_x s = None \<longleftrightarrow> st_k s = 0) \<and> st_k s \<le> 201"

text \<open>The states of a run of the loop whose iterates and steps stay large.\<close>

definition uk0_big :: "uk0_state \<Rightarrow> bool" where
  "uk0_big s \<longleftrightarrow>
     uk0_wf 1000 s \<and> (\<exists>i<1000. 2000000 \<le> \<bar>st_u s ! i\<bar>) \<and>
     (\<exists>i<length (st_ecart2 s). 2000000 \<le> \<bar>st_ecart2 s ! i\<bar>)"

section \<open>Basic facts\<close>

lemma ebind_Inr [simp]: "ebind (Inr x) f = f x"
  by (simp add: ebind_def)

lemma ebind_Inl [simp]: "ebind (Inl e) f = Inl e"
  by (simp add: ebind_def)

lemma ebind_eq_Inr:
  "ebind m f = Inr r \<longleftrightarrow> (\<exists>x. m = Inr x \<and> f x = Inr r)"
  by (cases m) simp_all

lemma getitem_nat [simp]:
  "getitem xs (int i) = (if i < length xs then Inr (xs ! i) else Inl IndexError)"
  by (simp add: getitem_def py_index_def)

lemma getitem_pred [simp]:
  "0 < i \<Longrightarrow> getitem xs (int i - 1) = (if i - 1 < length xs then Inr (xs ! (i - 1)) else Inl IndexError)"
  using getitem_nat [of xs "i - 1"] by (simp del: getitem_nat)

lemma getitem_nonneg:
  "0 \<le> j \<Longrightarrow>
     getitem xs j = (if nat j < length xs then Inr (xs ! nat j) else Inl IndexError)"
  by (auto simp: getitem_def py_index_def)

lemma getitem_numeral [simp]:
  "getitem xs (numeral k) =
     (if numeral k < length xs then Inr (xs ! numeral k) else Inl IndexError)"
  by (simp add: getitem_nonneg)

lemma getitem_one [simp]:
  "getitem xs 1 = (if 1 < length xs then Inr (xs ! 1) else Inl IndexError)"
  by (simp add: getitem_nonneg)

lemma getitem_zero [simp]:
  "getitem xs 0 = (if xs = [] then Inl IndexError else Inr (xs ! 0))"
  using getitem_nat [of xs 0] by simp

section \<open>The reference fixture of the factorisation\<close>

text \<open>
  C8. On the fixture of \<open>main\<close> (sub-diagonal \<open>[-4, -3, -2, 2]\<close>, diagonal
  \<open>[-2, 5, -1, 4, -2]\<close>, super-diagonal \<open>[1, 2, -1, 1]\<close>), \<open>lutri\<close> returns
  \<open>l = [2, -1, -2, 1]\<close> and \<open>v = [-2, 3, 1, 2, -3]\<close>.
\<close>

theorem lutri_fixture:
  "lutri [-2, 5, -1, 4, -2] [-4, -3, -2, 2] [1, 2, -1, 1]
     = Inr ([2, -1, -2, 1], [-2, 3, 1, 2, -3])"
  by (simp add: lutri_def upt_rec py_div_def)

section \<open>The loops of the factorisation and of the substitutions\<close>

lemma ebind_assoc: "ebind (ebind m f) k = ebind m (\<lambda>x. ebind (f x) k)"
  by (cases m) simp_all

lemma lutri_loop_append:
  "lutri_loop a b c (ks @ js) s = ebind (lutri_loop a b c ks s) (lutri_loop a b c js)"
proof (induction ks arbitrary: s)
  case Nil
  then show ?case by (cases s) simp
next
  case (Cons k ks)
  then show ?case by (cases s) (simp add: ebind_assoc)
qed

lemma lutri_loop_Suc:
  "lutri_loop a b c [1..<Suc (Suc m)] s =
     ebind (lutri_loop a b c [1..<Suc m] s) (lutri_loop a b c [Suc m])"
  using lutri_loop_append [of a b c "[1..<Suc m]" "[Suc m]" s] by simp

lemma getitem_Suc [simp]:
  "getitem xs (1 + int i) = (if Suc i < length xs then Inr (xs ! Suc i) else Inl IndexError)"
  using getitem_nat [of xs "Suc i"] by (simp del: getitem_nat)

lemma lutri_step:
  "lutri_loop a b c [Suc m] (l, v) = Inr (l', v') \<Longrightarrow> length l = m \<Longrightarrow> length v = Suc m \<Longrightarrow>
     m < length b \<and> m < length c \<and> Suc m < length a \<and> v ! m \<noteq> 0 \<and>
     l' = l @ [b ! m / v ! m] \<and> v' = v @ [a ! Suc m - (b ! m / v ! m) * c ! m]"
  by (auto simp: ebind_eq_Inr py_div_def nth_append split: if_splits)

lemma lutri_loop_props:
  "lutri_loop a b c [1..<Suc m] ([], [a0]) = Inr (l, v) \<Longrightarrow>
     length l = m \<and> length v = Suc m \<and> m \<le> length b \<and> m \<le> length c \<and>
     (m = 0 \<or> m < length a) \<and> v ! 0 = a0 \<and>
     (\<forall>i<m. v ! i \<noteq> 0 \<and> l ! i = b ! i / v ! i \<and> v ! Suc i = a ! Suc i - l ! i * c ! i)"
proof (induction m arbitrary: l v)
  case 0
  then show ?case by auto
next
  case (Suc m)
  from Suc.prems
  have "ebind (lutri_loop a b c [1..<Suc m] ([], [a0])) (lutri_loop a b c [Suc m]) = Inr (l, v)"
    by (simp only: lutri_loop_Suc)
  then obtain s0 where
    "lutri_loop a b c [1..<Suc m] ([], [a0]) = Inr s0" "lutri_loop a b c [Suc m] s0 = Inr (l, v)"
    unfolding ebind_eq_Inr by blast
  then obtain l0 v0 where
    prev: "lutri_loop a b c [1..<Suc m] ([], [a0]) = Inr (l0, v0)" and
    step: "lutri_loop a b c [Suc m] (l0, v0) = Inr (l, v)"
    by (cases s0) auto
  note ih = Suc.IH [OF prev]
  from ih have len: "length l0 = m" "length v0 = Suc m" by simp_all
  note st = lutri_step [OF step len]
  show ?case using ih st by (auto simp: nth_append less_Suc_eq)
qed

lemma descente_loop_append:
  "descente_loop l z (ks @ js) y = ebind (descente_loop l z ks y) (descente_loop l z js)"
  by (induction ks arbitrary: y) (simp_all add: ebind_assoc)

lemma descente_loop_Suc:
  "descente_loop l z [1..<Suc (Suc m)] y =
     ebind (descente_loop l z [1..<Suc m] y) (descente_loop l z [Suc m])"
  using descente_loop_append [of l z "[1..<Suc m]" "[Suc m]" y] by simp

lemma descente_step:
  "length y = Suc m \<Longrightarrow>
     descente_loop l z [Suc m] y =
       (if Suc m < length z \<and> m < length l then Inr (y @ [z ! Suc m - l ! m * y ! m])
        else Inl IndexError)"
  by simp

lemma descente_loop_props:
  "descente_loop l z [1..<Suc m] [z0] = Inr y \<Longrightarrow>
     length y = Suc m \<and> m \<le> length l \<and> (m = 0 \<or> m < length z) \<and> y ! 0 = z0 \<and>
     (\<forall>i<m. y ! Suc i = z ! Suc i - l ! i * y ! i)"
proof (induction m arbitrary: y)
  case 0
  then show ?case by auto
next
  case (Suc m)
  from Suc.prems
  have "ebind (descente_loop l z [1..<Suc m] [z0]) (descente_loop l z [Suc m]) = Inr y"
    by (simp only: descente_loop_Suc)
  then obtain y0 where
    prev: "descente_loop l z [1..<Suc m] [z0] = Inr y0" and
    step: "descente_loop l z [Suc m] y0 = Inr y"
    unfolding ebind_eq_Inr by blast
  note ih = Suc.IH [OF prev]
  from ih have len: "length y0 = Suc m" by simp
  from step have "Suc m < length z \<and> m < length l \<and> y = y0 @ [z ! Suc m - l ! m * y0 ! m]"
    unfolding descente_step [OF len] by (auto split: if_splits)
  with ih show ?case by (auto simp: nth_append less_Suc_eq)
qed

lemma descente_loop_ex:
  "m \<le> length l \<Longrightarrow> m = 0 \<or> m < length z \<Longrightarrow> \<exists>y. descente_loop l z [1..<Suc m] [z0] = Inr y"
proof (induction m)
  case 0
  then show ?case by simp
next
  case (Suc m)
  then obtain y0 where prev: "descente_loop l z [1..<Suc m] [z0] = Inr y0" by auto
  from descente_loop_props [OF prev] have len: "length y0 = Suc m" by simp
  show ?case
    unfolding descente_loop_Suc prev ebind_Inr descente_step [OF len] using Suc.prems by simp
qed

lemma remontee_loop_Suc:
  "remontee_loop v c y (rev [0..<Suc m]) x =
     ebind (getitem y (int m)) (\<lambda>yi.
     ebind (getitem c (int m)) (\<lambda>ci.
     ebind (getitem x 0) (\<lambda>x0.
     ebind (getitem v (int m)) (\<lambda>vi.
     ebind (py_div (yi - ci * x0) vi) (\<lambda>q.
       remontee_loop v c y (rev [0..<m]) (q # x))))))"
  by simp

lemma remontee_loop_props:
  "x \<noteq> [] \<Longrightarrow> remontee_loop v c y (rev [0..<m]) x = Inr x' \<Longrightarrow>
     m \<le> length y \<and> m \<le> length c \<and> m \<le> length v \<and>
     length x' = m + length x \<and> drop m x' = x \<and>
     (\<forall>i<m. v ! i \<noteq> 0 \<and> x' ! i = (y ! i - c ! i * x' ! Suc i) / v ! i)"
proof (induction m arbitrary: x)
  case 0
  then show ?case by auto
next
  case (Suc m)
  let ?q = "(y ! m - c ! m * x ! 0) / v ! m"
  from Suc.prems have
    dims: "m < length y" "m < length c" "m < length v" "v ! m \<noteq> 0" and
    rest: "remontee_loop v c y (rev [0..<m]) (?q # x) = Inr x'"
    unfolding remontee_loop_Suc by (auto simp: ebind_eq_Inr py_div_def split: if_splits)
  have ih: "m \<le> length y \<and> m \<le> length c \<and> m \<le> length v \<and>
     length x' = m + length (?q # x) \<and> drop m x' = ?q # x \<and>
     (\<forall>i<m. v ! i \<noteq> 0 \<and> x' ! i = (y ! i - c ! i * x' ! Suc i) / v ! i)"
    using Suc.IH [OF _ rest] by simp
  then have d: "drop m x' = ?q # x" and lx: "length x' = Suc (m + length x)" by simp_all
  have xm: "x' ! m = ?q"
    using d lx by (metis Cons_nth_drop_Suc less_add_Suc1 list.inject)
  have dS: "drop (Suc m) x' = x"
    using d lx by (metis Cons_nth_drop_Suc less_add_Suc1 list.inject)
  have "drop (Suc m) x' ! 0 = x' ! (Suc m + 0)"
    by (rule nth_drop) (simp add: lx)
  then have xS: "x' ! Suc m = x ! 0"
    by (simp add: dS)
  show ?case using ih dims xm dS xS lx by (auto simp: less_Suc_eq)
qed

lemma remontee_loop_ex:
  "x \<noteq> [] \<Longrightarrow> m \<le> length y \<Longrightarrow> m \<le> length c \<Longrightarrow> m \<le> length v \<Longrightarrow> \<forall>i<m. v ! i \<noteq> 0 \<Longrightarrow>
     \<exists>x'. remontee_loop v c y (rev [0..<m]) x = Inr x'"
proof (induction m arbitrary: x)
  case 0
  then show ?case by simp
next
  case (Suc m)
  then show ?case unfolding remontee_loop_Suc by (simp add: py_div_def)
qed

section \<open>The tridiagonal matrix and its product with a vector\<close>

lemma map2_map_upt:
  "length ys = n \<Longrightarrow> map2 f (map e [0..<n]) ys = map (\<lambda>s. f (e s) (ys ! s)) [0..<n]"
  by (rule nth_equalityI) simp_all

lemma np_add_same:
  "np_add (map (\<lambda>r. map (f r) [0..<n]) [0..<n]) (map (\<lambda>r. map (e r) [0..<n]) [0..<n])
     = Inr (map (\<lambda>r. map (\<lambda>s. f r s + e r s) [0..<n]) [0..<n])"
proof -
  have "map2 (map2 (+)) (map (\<lambda>r. map (f r) [0..<n]) [0..<n]) (map (\<lambda>r. map (e r) [0..<n]) [0..<n])
      = map (\<lambda>r. map (\<lambda>s. f r s + e r s) [0..<n]) [0..<n]"
    by (rule nth_equalityI) (simp_all add: map2_map_upt)
  then show ?thesis by (simp add: np_add_def)
qed

lemma tridiag_entries:
  assumes "length a = Suc (length b)" "length c = length b"
  shows "tridiag (b, a, c) =
           Inr (map (\<lambda>r. map (tri_entry b a c r) [0..<length a]) [0..<length a])"
proof -
  let ?n = "length a"
  have db: "np_diag b (- 1) = map (\<lambda>r. map (\<lambda>s. if r = Suc s then b ! s else 0) [0..<?n]) [0..<?n]"
    using assms by (auto simp: np_diag_def Let_def cong: if_cong)
  have da: "np_diag a 0 = map (\<lambda>r. map (\<lambda>s. if s = r then a ! r else 0) [0..<?n]) [0..<?n]"
    by (auto simp: np_diag_def Let_def cong: if_cong)
  have dc: "np_diag c 1 = map (\<lambda>r. map (\<lambda>s. if s = Suc r then c ! r else 0) [0..<?n]) [0..<?n]"
    using assms by (auto simp: np_diag_def Let_def cong: if_cong)
  show ?thesis
    unfolding tridiag_def prod.case db da dc np_add_same ebind_Inr
    by (simp add: tri_entry_def)
qed

lemma sum_tri_entry:
  assumes "r < n"
  shows "(\<Sum>s = 0..<n. tri_entry b a c r s * x ! s) =
           (if 0 < r then b ! (r - 1) * x ! (r - 1) else 0) + a ! r * x ! r
           + (if Suc r < n then c ! r * x ! Suc r else 0)"
proof -
  have 1: "(\<Sum>s = 0..<n. (if r = Suc s then b ! s else 0) * x ! s)
             = (if 0 < r then b ! (r - 1) * x ! (r - 1) else 0)"
  proof (cases r)
    case 0
    then show ?thesis by simp
  next
    case (Suc r')
    then have "(\<Sum>s = 0..<n. (if r = Suc s then b ! s else 0) * x ! s)
                 = (\<Sum>s = 0..<n. if s = r' then b ! s * x ! s else 0)"
      by (intro sum.cong) auto
    also have "\<dots> = b ! r' * x ! r'" using assms Suc by simp
    finally show ?thesis using Suc by simp
  qed
  have "(\<Sum>s = 0..<n. (if s = r then a ! r else 0) * x ! s)
          = (\<Sum>s = 0..<n. if s = r then a ! r * x ! s else 0)"
    by (intro sum.cong) auto
  then have 2: "(\<Sum>s = 0..<n. (if s = r then a ! r else 0) * x ! s) = a ! r * x ! r"
    using assms by simp
  have "(\<Sum>s = 0..<n. (if s = Suc r then c ! r else 0) * x ! s)
          = (\<Sum>s = 0..<n. if s = Suc r then c ! r * x ! s else 0)"
    by (intro sum.cong) auto
  then have 3: "(\<Sum>s = 0..<n. (if s = Suc r then c ! r else 0) * x ! s)
          = (if Suc r < n then c ! r * x ! Suc r else 0)"
    by simp
  have "(\<Sum>s = 0..<n. tri_entry b a c r s * x ! s) =
          (\<Sum>s = 0..<n. (if r = Suc s then b ! s else 0) * x ! s)
          + (\<Sum>s = 0..<n. (if s = r then a ! r else 0) * x ! s)
          + (\<Sum>s = 0..<n. (if s = Suc r then c ! r else 0) * x ! s)"
    by (simp add: tri_entry_def distrib_right sum.distrib)
  then show ?thesis by (simp only: 1 2 3)
qed

lemma tridiag_dot:
  assumes "length a = Suc (length b)" "length c = length b" "length x = length a"
  shows "ebind (tridiag (b, a, c)) (\<lambda>A. dot A x) = Inr (map (tri_row b a c x) [0..<length a])"
proof -
  let ?n = "length a"
  have "dot (map (\<lambda>r. map (tri_entry b a c r) [0..<?n]) [0..<?n]) x
          = Inr (map (\<lambda>r. \<Sum>s = 0..<?n. tri_entry b a c r s * x ! s) [0..<?n])"
    using assms(3)
    by (simp add: dot_def list_all_iff map2_map_upt interv_sum_list_conv_sum_set_nat)
  also have "(map (\<lambda>r. \<Sum>s = 0..<?n. tri_entry b a c r s * x ! s) [0..<?n])
               = map (tri_row b a c x) [0..<?n]"
    by (rule map_cong) (simp_all add: sum_tri_entry tri_row_def)
  finally show ?thesis by (simp add: tridiag_entries [OF assms(1,2)])
qed

section \<open>Correctness of the tridiagonal solve\<close>

lemma lutri_Inr:
  assumes "lutri a b c = Inr (l, v)"
  shows "a \<noteq> [] \<and> length l = length a - 1 \<and> length v = length a \<and>
         length a - 1 \<le> length b \<and> length a - 1 \<le> length c \<and> v ! 0 = a ! 0 \<and>
         (\<forall>i<length a - 1. v ! i \<noteq> 0 \<and> l ! i = b ! i / v ! i \<and>
              v ! Suc i = a ! Suc i - l ! i * c ! i)"
proof -
  from assms have ne: "a \<noteq> []" by (auto simp: lutri_def split: if_splits)
  then obtain m where m: "length a = Suc m" by (cases a) auto
  from assms ne have "lutri_loop a b c [1..<Suc m] ([], [a ! 0]) = Inr (l, v)"
    by (simp add: lutri_def m)
  from lutri_loop_props [OF this] show ?thesis using ne m by simp
qed

lemma descente_Inr:
  assumes "descente l z = Inr y"
  shows "z \<noteq> [] \<and> length y = length z \<and> length z - 1 \<le> length l \<and> y ! 0 = z ! 0 \<and>
         (\<forall>i<length z - 1. y ! Suc i = z ! Suc i - l ! i * y ! i)"
proof -
  from assms have ne: "z \<noteq> []" by (auto simp: descente_def split: if_splits)
  then obtain m where m: "length z = Suc m" by (cases z) auto
  from assms ne have "descente_loop l z [1..<Suc m] [z ! 0] = Inr y"
    by (simp add: descente_def m)
  from descente_loop_props [OF this] show ?thesis using ne m by simp
qed

lemma descente_ex:
  assumes "z \<noteq> []" "length z - 1 \<le> length l"
  shows "\<exists>y. descente l z = Inr y"
proof -
  from assms obtain m where m: "length z = Suc m" by (cases z) auto
  have "\<exists>y. descente_loop l z [1..<Suc m] [z ! 0] = Inr y"
    by (rule descente_loop_ex) (use assms m in auto)
  then show ?thesis using assms(1) by (simp add: descente_def m)
qed

lemma remontee_unfold:
  assumes "length y = Suc m"
  shows "remontee v c y =
          (if m < length v then
             if v ! m = 0 then Inl ZeroDivisionError
             else remontee_loop v c y (rev [0..<m]) [y ! m / v ! m]
           else Inl IndexError)"
  using assms getitem_nat [of y m] getitem_nat [of v m]
  by (simp add: remontee_def py_div_def del: getitem_nat)

lemma remontee_Inr:
  assumes "remontee v c y = Inr x"
  shows "y \<noteq> [] \<and> length x = length y \<and> length y \<le> length v \<and> length y - 1 \<le> length c \<and>
         (\<forall>i<length y. v ! i \<noteq> 0) \<and>
         x ! (length y - 1) = y ! (length y - 1) / v ! (length y - 1) \<and>
         (\<forall>i<length y - 1. x ! i = (y ! i - c ! i * x ! Suc i) / v ! i)"
proof -
  have ne: "y \<noteq> []"
  proof
    assume "y = []"
    with assms show False by (simp add: remontee_def getitem_def py_index_def)
  qed
  then obtain m where m: "length y = Suc m" by (cases y) auto
  from assms have mv: "m < length v" and vm: "v ! m \<noteq> 0" and
    loop: "remontee_loop v c y (rev [0..<m]) [y ! m / v ! m] = Inr x"
    unfolding remontee_unfold [OF m] by (auto split: if_splits)
  have p: "m \<le> length y \<and> m \<le> length c \<and> m \<le> length v \<and>
     length x = m + length [y ! m / v ! m] \<and> drop m x = [y ! m / v ! m] \<and>
     (\<forall>i<m. v ! i \<noteq> 0 \<and> x ! i = (y ! i - c ! i * x ! Suc i) / v ! i)"
    by (rule remontee_loop_props [OF _ loop]) simp
  then have "drop m x ! 0 = x ! (m + 0)" by (intro nth_drop) simp
  with p have xm: "x ! m = y ! m / v ! m" by simp
  show ?thesis using ne m mv vm p xm by (auto simp: less_Suc_eq)
qed

lemma remontee_ex:
  assumes "y \<noteq> []" "length y \<le> length v" "length y - 1 \<le> length c" "\<forall>i<length y. v ! i \<noteq> 0"
  shows "\<exists>x. remontee v c y = Inr x"
proof -
  from assms obtain m where m: "length y = Suc m" by (cases y) auto
  have "\<exists>x. remontee_loop v c y (rev [0..<m]) [y ! m / v ! m] = Inr x"
    by (rule remontee_loop_ex) (use assms m in auto)
  then show ?thesis unfolding remontee_unfold [OF m] using assms m by simp
qed

lemma lu_rows:
  assumes lu: "lutri a b c = Inr (l, v)" and de: "descente l z = Inr y"
    and re: "remontee v c y = Inr x" and lz: "length z = length a"
  shows "map (tri_row b a c x) [0..<length a] = z"
proof (rule nth_equalityI)
  show "length (map (tri_row b a c x) [0..<length a]) = length z" using lz by simp
next
  fix r assume "r < length (map (tri_row b a c x) [0..<length a])"
  then have r: "r < length a" by simp
  note L = lutri_Inr [OF lu] and D = descente_Inr [OF de] and R = remontee_Inr [OF re]
  from D lz have ly: "length y = length a" by simp
  have U: "v ! j * x ! j + (if Suc j < length a then c ! j * x ! Suc j else 0) = y ! j"
    if "j < length a" for j
  proof (cases "Suc j < length a")
    case True
    then have "x ! j = (y ! j - c ! j * x ! Suc j) / v ! j" and "v ! j \<noteq> 0"
      using R ly by auto
    then show ?thesis using True by (simp add: field_simps)
  next
    case False
    with that have "j = length y - 1" using ly by simp
    then have "x ! j = y ! j / v ! j" and "v ! j \<noteq> 0" using R that ly by auto
    then show ?thesis using False by simp
  qed
  show "map (tri_row b a c x) [0..<length a] ! r = z ! r"
  proof (cases r)
    case 0
    then show ?thesis using r U [of 0] L D by (simp add: tri_row_def)
  next
    case (Suc i)
    with r have i: "i < length a - 1" by simp
    have bi: "b ! i = l ! i * v ! i" using L i by simp
    have ai: "a ! Suc i = v ! Suc i + l ! i * c ! i" using L i by simp
    have yi: "z ! Suc i = y ! Suc i + l ! i * y ! i" using D i lz by simp
    have "tri_row b a c x r = l ! i * (v ! i * x ! i + c ! i * x ! Suc i)
            + (v ! Suc i * x ! Suc i + (if Suc (Suc i) < length a then c ! Suc i * x ! Suc (Suc i) else 0))"
      using Suc by (simp add: tri_row_def bi ai algebra_simps)
    also have "\<dots> = l ! i * y ! i + y ! Suc i"
      using U [of i] U [of "Suc i"] r Suc by simp
    finally show ?thesis using r yi Suc by simp
  qed
qed

lemma lu_solve:
  assumes "length a = Suc (length b)" and "length c = length b" and "length z = length a"
    and "lutri a b c = Inr (l, v)" and "0 \<notin> set v"
  shows "\<exists>y x A. descente l z = Inr y \<and> remontee v c y = Inr x \<and> length x = length a \<and>
           tridiag (b, a, c) = Inr A \<and> dot A x = Inr z"
proof -
  note L = lutri_Inr [OF assms(4)]
  have "z \<noteq> []" "length z - 1 \<le> length l" using assms(1,3) L by auto
  then obtain y where de: "descente l z = Inr y"
    using descente_ex [of z l] by blast
  note D = descente_Inr [OF de]
  have "\<forall>i<length y. v ! i \<noteq> 0"
    using assms(5) D L assms(3) by (metis nth_mem)
  moreover have "y \<noteq> []" "length y \<le> length v" "length y - 1 \<le> length c"
    using D L assms(1,2,3) by auto
  ultimately obtain x where re: "remontee v c y = Inr x"
    using remontee_ex [of y v c] by blast
  have lx: "length x = length a" using remontee_Inr [OF re] D assms(3) by simp
  have "ebind (tridiag (b, a, c)) (\<lambda>A. dot A x) = Inr z"
    using tridiag_dot [OF assms(1,2) lx] lu_rows [OF assms(4) de re assms(3)] by simp
  then show ?thesis using de re lx by (auto simp: ebind_eq_Inr)
qed

text \<open>
  C1. For a tridiagonal matrix given by a diagonal \<open>a\<close> of length \<open>n\<close>, a
  sub-diagonal \<open>b\<close> and a super-diagonal \<open>c\<close> of length \<open>n - 1\<close>, whose factored
  pivots \<open>v\<close> are all nonzero, and a right-hand side \<open>z\<close> of length \<open>n\<close>:
  \<open>lutri\<close>, then \<open>descente\<close>, then \<open>remontee\<close> return a vector \<open>x\<close> with
  \<open>A x = z\<close>, where \<open>A\<close> is the dense matrix \<open>tridiag\<close> builds and the product is
  \<open>dot\<close> (exact arithmetic).
\<close>

theorem lu_solve_correct:
  assumes "length a = Suc (length b)" and "length c = length b" and "length z = length a"
    and "lutri a b c = Inr (l, v)" and "0 \<notin> set v"
  shows "\<exists>y x A. descente l z = Inr y \<and> remontee v c y = Inr x \<and> length x = length a \<and>
           tridiag (b, a, c) = Inr A \<and> dot A x = Inr z"
  using assms by (rule lu_solve)

text \<open>The theorem at a 2 x 2 system.\<close>

theorem lu_solve_correct_witness:
  "lutri [2, 3] [1] [1] = Inr ([1 / 2], [2, 5 / 2]) \<and> 0 \<notin> set [2, 5 / 2 :: real] \<and>
   (\<exists>y x A. descente [1 / 2] [4, 7] = Inr y \<and> remontee [2, 5 / 2] [1] y = Inr x \<and>
      length x = length [2, 3 :: real] \<and> tridiag ([1], [2, 3], [1]) = Inr A \<and> dot A x = Inr [4, 7])"
proof -
  have lu: "lutri [2, 3] [1] [1] = Inr ([1 / 2], [2, 5 / 2])"
    by (simp add: lutri_def py_div_def)
  have nz: "0 \<notin> set [2, 5 / 2 :: real]" by simp
  show ?thesis
    using lu nz lu_solve_correct [of "[2, 3]" "[1]" "[1]" "[4, 7]" "[1 / 2]" "[2, 5 / 2]", OF _ _ _ lu nz]
    by simp
qed

section \<open>Dimension contracts\<close>

lemma getitem_Inl: "getitem xs i = Inl e \<Longrightarrow> e = IndexError"
  by (auto simp: getitem_def split: option.splits)

lemma py_div_Inl: "py_div p q = Inl e \<Longrightarrow> e = ZeroDivisionError"
  by (auto simp: py_div_def split: if_splits)

lemma ebind_Inl_cases:
  "ebind m f = Inl e \<Longrightarrow> m = Inl e \<or> (\<exists>x. m = Inr x \<and> f x = Inl e)"
  by (cases m) simp_all

lemma lutri_loop_Inl:
  "lutri_loop a b c ks s = Inl e \<Longrightarrow> e = IndexError \<or> e = ZeroDivisionError"
proof (induction ks arbitrary: s)
  case Nil
  then show ?case by (cases s) simp
next
  case (Cons k ks)
  obtain l v where s: "s = (l, v)" by (cases s)
  from Cons.prems show ?case
    unfolding s lutri_loop.simps
    by (auto dest!: ebind_Inl_cases dest: getitem_Inl py_div_Inl Cons.IH split: if_splits)
qed

lemma lutri_Inl: "lutri a b c = Inl e \<Longrightarrow> e = IndexError \<or> e = ZeroDivisionError"
  unfolding lutri_def by (auto dest!: ebind_Inl_cases dest: getitem_Inl lutri_loop_Inl split: if_splits)

lemma descente_loop_Inl: "descente_loop l z ks y = Inl e \<Longrightarrow> e = IndexError"
proof (induction ks arbitrary: y)
  case Nil
  then show ?case by simp
next
  case (Cons k ks)
  from Cons.prems show ?case
    unfolding descente_loop.simps
    by (auto dest!: ebind_Inl_cases dest: getitem_Inl Cons.IH split: if_splits)
qed

lemma descente_Inl: "descente l z = Inl e \<Longrightarrow> e = IndexError"
  unfolding descente_def by (auto dest!: ebind_Inl_cases dest: getitem_Inl descente_loop_Inl split: if_splits)

lemma remontee_loop_Inl:
  "remontee_loop v c y ks x = Inl e \<Longrightarrow> e = IndexError \<or> e = ZeroDivisionError"
proof (induction ks arbitrary: x)
  case Nil
  then show ?case by simp
next
  case (Cons k ks)
  from Cons.prems show ?case
    unfolding remontee_loop.simps
    by (auto dest!: ebind_Inl_cases dest: getitem_Inl py_div_Inl Cons.IH split: if_splits)
qed

lemma remontee_Inl: "remontee v c y = Inl e \<Longrightarrow> e = IndexError \<or> e = ZeroDivisionError"
  unfolding remontee_def Let_def
  by (auto dest!: ebind_Inl_cases dest: getitem_Inl py_div_Inl remontee_loop_Inl split: if_splits)

lemma ebind_InrE:
  assumes "ebind m f = Inr r"
  obtains x where "m = Inr x" "f x = Inr r"
  using assms by (auto simp: ebind_eq_Inr)

lemma case_prod_InrE:
  assumes "(case p of (a, b) \<Rightarrow> f a b) = Inr r"
  obtains a b where "p = (a, b)" "f a b = Inr r"
  using assms by (cases p) auto

lemma setitem_Inr_length: "setitem xs i v = Inr ys \<Longrightarrow> xs \<noteq> []"
  by (auto simp: setitem_def py_index_def split: if_splits)

lemma pb_assemble_reads:
  assumes "pb_assemble u n mu = Inr r"
  shows "\<exists>h c un. py_div 10 (real n) = Inr h \<and>
     setitem (replicate (n - 1) (0::real)) 0 2 = Inr c \<and> getitem u (int n - 1) = Inr un"
  using assms unfolding pb_assemble_def Let_def
  apply -
  apply (erule ebind_InrE)
  apply (erule ebind_InrE)
  apply (erule ebind_InrE)
  apply (erule ebind_InrE)
  apply (erule ebind_InrE)
  apply (erule case_prod_InrE)
  apply (erule case_prod_InrE)
  apply (erule case_prod_InrE)
  apply (erule ebind_InrE)
  apply (erule ebind_InrE)
  apply (erule ebind_InrE)
  apply (intro exI conjI)
    apply assumption
   apply assumption
  apply assumption
  done

lemma pb_assemble_Inr:
  assumes "pb_assemble u n mu = Inr r"
  shows "2 \<le> n \<and> n \<le> length u"
proof -
  from pb_assemble_reads [OF assms] obtain h c un where h: "py_div 10 (real n) = Inr h"
    and c: "setitem (replicate (n - 1) (0::real)) 0 2 = Inr c"
    and un: "getitem u (int n - 1) = Inr un"
    by blast
  from h have n0: "n \<noteq> 0" by (auto simp: py_div_def split: if_splits)
  from setitem_Inr_length [OF c] n0 have n: "2 \<le> n" by (cases n) auto
  have "int n - 1 = int (n - 1)" using n by simp
  with un have "getitem u (int (n - 1)) = Inr un" by (simp only:)
  then have "(if n - 1 < length u then Inr (u ! (n - 1)) else Inl IndexError) = Inr un"
    by (simp only: getitem_nat)
  then have "n - 1 < length u" by (cases "n - 1 < length u") simp_all
  with n show ?thesis by linarith
qed

lemma solve_poisson_boltzmann_Inr:
  assumes "solve_poisson_boltzmann u n mu = Inr r"
  shows "2 \<le> n \<and> n \<le> length u"
proof -
  from assms obtain q where "pb_assemble u n mu = Inr q"
    unfolding solve_poisson_boltzmann_def by - (erule ebind_InrE)
  then show ?thesis by (rule pb_assemble_Inr)
qed

section \<open>The assemblers in closed form\<close>

lemma setitem_nonneg:
  "0 \<le> j \<Longrightarrow>
     setitem xs j v = (if nat j < length xs then Inr (xs[nat j := v]) else Inl IndexError)"
  by (auto simp: setitem_def py_index_def)

lemma setitem_numeral [simp]:
  "setitem xs (numeral k) v =
     (if numeral k < length xs then Inr (xs[numeral k := v]) else Inl IndexError)"
  by (simp add: setitem_nonneg)

lemma setitem_one [simp]:
  "setitem xs 1 v = (if 1 < length xs then Inr (xs[1 := v]) else Inl IndexError)"
  by (simp add: setitem_nonneg)

lemma setitem_nat [simp]:
  "setitem xs (int i) v = (if i < length xs then Inr (xs[i := v]) else Inl IndexError)"
  by (simp add: setitem_def py_index_def)

lemma setitem_zero [simp]:
  "setitem xs 0 v = (if xs = [] then Inl IndexError else Inr (xs[0 := v]))"
  using setitem_nat [of xs 0 v] by simp

lemma setitem_pred [simp]:
  "0 < i \<Longrightarrow> setitem xs (int i - 1) v =
     (if i - 1 < length xs then Inr (xs[i - 1 := v]) else Inl IndexError)"
  using setitem_nat [of xs "i - 1" v] by (simp del: setitem_nat)

lemma setitem_pred2 [simp]:
  "2 \<le> i \<Longrightarrow> setitem xs (int i - 2) v =
     (if i - 2 < length xs then Inr (xs[i - 2 := v]) else Inl IndexError)"
  using setitem_nat [of xs "i - 2" v] by (simp del: setitem_nat)

lemma map_upt_update:
  "(map f [0..<m])[j := v] = map (f(j := v)) [0..<m]"
  by (rule nth_equalityI) (auto simp: nth_list_update)

lemma replicate_map_upt: "replicate m v = map (\<lambda>_. v) [0..<m]"
  by (rule nth_equalityI) auto

lemma grid_h_pos: "0 < n \<Longrightarrow> 0 < grid_h n"
  by (simp add: grid_h_def)

lemma grid_x_pos: "0 < n \<Longrightarrow> 0 < grid_x n i"
  using grid_h_pos [of n] by (simp add: grid_x_def add_pos_nonneg)

lemma dh_loop_append:
  "dh_loop h (ks @ js) s = ebind (dh_loop h ks s) (dh_loop h js)"
proof (induction ks arbitrary: s)
  case Nil
  then show ?case by (cases s) simp
next
  case (Cons k ks)
  then show ?case by (cases s) (simp add: ebind_assoc Let_def)
qed

lemma dh_loop_step:
  assumes "0 < n" "0 < i" "i - 1 < length b" "i < length c" "i < length x"
  shows "dh_loop (grid_h n) [i] (b, c, x) =
           Inr (b[i - 1 := grid_b n (i - 1)], c[i := grid_c n i], x[i := grid_x n i])"
proof -
  have "2 * (1 + real i * grid_h n) \<noteq> 0"
    using grid_x_pos [OF assms(1), of i] by (simp add: grid_x_def)
  then show ?thesis using assms
    by (simp add: py_div_def Let_def grid_b_def grid_c_def grid_x_def)
qed

lemma dh_loop_closed:
  assumes "0 < n" "1 \<le> k" "k \<le> n - 1"
  shows "dh_loop (grid_h n) [1..<k]
           (replicate (n - 1) 0, (replicate (n - 1) 0)[0 := 2], replicate n 1) =
         Inr (map (\<lambda>j. if Suc j < k then grid_b n j else 0) [0..<n - 1],
              map (\<lambda>i. if i < k then grid_c n i else 0) [0..<n - 1],
              map (\<lambda>i. if i < k then grid_x n i else 1) [0..<n])"
  using assms(2,3)
proof (induction k rule: dec_induct)
  case base
  have "(replicate (n - 1) 0)[0 := 2] = map (\<lambda>i. if i < 1 then grid_c n i else 0) [0..<n - 1]"
    by (rule nth_equalityI) (auto simp: nth_list_update grid_c_def)
  moreover have "replicate n 1 = map (\<lambda>i. if i < 1 then grid_x n i else 1) [0..<n]"
    by (rule nth_equalityI) (auto simp: grid_x_def)
  moreover have "replicate (n - 1) 0 = map (\<lambda>j. if Suc j < 1 then grid_b n j else 0) [0..<n - 1]"
    by (rule nth_equalityI) auto
  ultimately show ?case by simp
next
  case (step k)
  have "[1..<Suc k] = [1..<k] @ [k]" using step.hyps by simp
  then have "dh_loop (grid_h n) [1..<Suc k]
           (replicate (n - 1) 0, (replicate (n - 1) 0)[0 := 2], replicate n 1)
      = dh_loop (grid_h n) [k] (map (\<lambda>j. if Suc j < k then grid_b n j else 0) [0..<n - 1],
              map (\<lambda>i. if i < k then grid_c n i else 0) [0..<n - 1],
              map (\<lambda>i. if i < k then grid_x n i else 1) [0..<n])"
    using step by (simp only: dh_loop_append ebind_Inr) 
  also have "\<dots> = Inr ((map (\<lambda>j. if Suc j < k then grid_b n j else 0) [0..<n - 1])[k - 1 := grid_b n (k - 1)],
              (map (\<lambda>i. if i < k then grid_c n i else 0) [0..<n - 1])[k := grid_c n k],
              (map (\<lambda>i. if i < k then grid_x n i else 1) [0..<n])[k := grid_x n k])"
    by (rule dh_loop_step) (use step assms in auto)
  also have "(map (\<lambda>j. if Suc j < k then grid_b n j else 0) [0..<n - 1])[k - 1 := grid_b n (k - 1)]
      = map (\<lambda>j. if Suc j < Suc k then grid_b n j else 0) [0..<n - 1]"
    using step.hyps by (intro nth_equalityI) (auto simp: nth_list_update less_Suc_eq)
  also have "(map (\<lambda>i. if i < k then grid_c n i else 0) [0..<n - 1])[k := grid_c n k]
      = map (\<lambda>i. if i < Suc k then grid_c n i else 0) [0..<n - 1]"
    by (intro nth_equalityI) (auto simp: nth_list_update less_Suc_eq)
  also have "(map (\<lambda>i. if i < k then grid_x n i else 1) [0..<n])[k := grid_x n k]
      = map (\<lambda>i. if i < Suc k then grid_x n i else 1) [0..<n]"
    by (intro nth_equalityI) (auto simp: nth_list_update less_Suc_eq)
  finally show ?case .
qed

lemma dh_assemble_closed:
  assumes "2 \<le> n"
  shows "dh_assemble n mu =
           Inr (map (grid_x n) [0..<n], map (grid_b n) [0..<n - 1],
                replicate n (- (2 + grid_h n ^ 2)), map (grid_c n) [0..<n - 1],
                (replicate n 0)[0 := mu * grid_h n * (grid_h n - 2)])"
proof -
  from assms have n: "0 < n" by simp
  have loop: "dh_loop (grid_h n) [1..<n - 1]
           (replicate (n - 1) 0, (replicate (n - 1) 0)[0 := 2], replicate n 1) =
         Inr (map (\<lambda>j. if Suc j < n - 1 then grid_b n j else 0) [0..<n - 1],
              map (\<lambda>i. if i < n - 1 then grid_c n i else 0) [0..<n - 1],
              map (\<lambda>i. if i < n - 1 then grid_x n i else 1) [0..<n])"
    by (rule dh_loop_closed) (use assms in auto)
  have xn: "1 + (real n - 1) * grid_h n = grid_x n (n - 1)"
    using n by (simp add: grid_x_def of_nat_diff)
  have nz: "2 * grid_x n (n - 1) \<noteq> 0" using grid_x_pos [OF n, of "n - 1"] by simp
  have bq: "1 - grid_h n / (2 * grid_x n (n - 1)) = grid_b n (n - 2)"
    using assms by (simp add: grid_b_def Suc_diff_Suc numeral_2_eq_2)
  have b: "(map (\<lambda>j. if Suc j < n - 1 then grid_b n j else 0) [0..<n - 1])[n - 2 := grid_b n (n - 2)]
      = map (grid_b n) [0..<n - 1]"
    by (intro nth_equalityI) (auto simp: nth_list_update)
  have c: "map (\<lambda>i. if i < n - 1 then grid_c n i else 0) [0..<n - 1] = map (grid_c n) [0..<n - 1]"
    by (intro nth_equalityI) auto
  have x: "(map (\<lambda>i. if i < n - 1 then grid_x n i else 1) [0..<n])[n - 1 := grid_x n (n - 1)]
      = map (grid_x n) [0..<n]"
    by (intro nth_equalityI) (auto simp: nth_list_update)
  have i1: "int n - 1 = int (n - 1)" using n by simp
  have pd: "py_div 10 (real n) = Inr (grid_h n)" using n by (simp add: py_div_def grid_h_def)
  have pq: "py_div (grid_h n) (2 * grid_x n (n - 1)) = Inr (grid_h n / (2 * grid_x n (n - 1)))"
    using nz by (simp add: py_div_def)
  show ?thesis
    unfolding dh_assemble_def pd ebind_Inr Let_def xn i1
    using assms by (simp add: loop pq bq b c x del: One_nat_def)
qed

lemma pb_loop_append:
  "pb_loop h u (ks @ js) s = ebind (pb_loop h u ks s) (pb_loop h u js)"
proof (induction ks arbitrary: s)
  case Nil
  then show ?case by (cases s) auto
next
  case (Cons k ks)
  obtain b c z x where s: "s = (b, c, z, x)" by (cases s)
  show ?case unfolding s by (simp add: ebind_assoc Let_def Cons.IH)
qed

lemma pb_loop_step:
  assumes "0 < n" "0 < i" "i - 1 < length b" "i < length c" "i < length x" "i < length z"
    "i < length u"
  shows "pb_loop (grid_h n) u [i] (b, c, z, x) =
           Inr (b[i - 1 := grid_b n (i - 1)], c[i := grid_c n i], z[i := pb_z u n mu i],
                x[i := grid_x n i])"
proof -
  have "2 * (1 + real i * grid_h n) \<noteq> 0"
    using grid_x_pos [OF assms(1), of i] by (simp add: grid_x_def)
  then show ?thesis using assms
    by (simp add: py_div_def Let_def grid_b_def grid_c_def grid_x_def pb_z_def)
qed

lemma pb_loop_closed:
  assumes "0 < n" "1 \<le> k" "k \<le> n - 1" "n \<le> length u"
  shows "pb_loop (grid_h n) u [1..<k]
           (replicate (n - 1) 0, (replicate (n - 1) 0)[0 := 2],
            (replicate n 0)[0 := pb_z u n mu 0], replicate n 1) =
         Inr (map (\<lambda>j. if Suc j < k then grid_b n j else 0) [0..<n - 1],
              map (\<lambda>i. if i < k then grid_c n i else 0) [0..<n - 1],
              map (\<lambda>i. if i < k then pb_z u n mu i else 0) [0..<n],
              map (\<lambda>i. if i < k then grid_x n i else 1) [0..<n])"
  using assms(2,3)
proof (induction k rule: dec_induct)
  case base
  have "(replicate (n - 1) 0)[0 := 2] = map (\<lambda>i. if i < 1 then grid_c n i else 0) [0..<n - 1]"
    by (rule nth_equalityI) (auto simp: nth_list_update grid_c_def)
  moreover have "replicate n 1 = map (\<lambda>i. if i < 1 then grid_x n i else 1) [0..<n]"
    by (rule nth_equalityI) (auto simp: grid_x_def)
  moreover have "replicate (n - 1) 0 = map (\<lambda>j. if Suc j < 1 then grid_b n j else 0) [0..<n - 1]"
    by (rule nth_equalityI) auto
  moreover have "(replicate n 0)[0 := pb_z u n mu 0]
      = map (\<lambda>i. if i < 1 then pb_z u n mu i else 0) [0..<n]"
    by (rule nth_equalityI) (auto simp: nth_list_update)
  ultimately show ?case by simp
next
  case (step k)
  have "[1..<Suc k] = [1..<k] @ [k]" using step.hyps by simp
  then have "pb_loop (grid_h n) u [1..<Suc k]
           (replicate (n - 1) 0, (replicate (n - 1) 0)[0 := 2],
            (replicate n 0)[0 := pb_z u n mu 0], replicate n 1)
      = pb_loop (grid_h n) u [k] (map (\<lambda>j. if Suc j < k then grid_b n j else 0) [0..<n - 1],
              map (\<lambda>i. if i < k then grid_c n i else 0) [0..<n - 1],
              map (\<lambda>i. if i < k then pb_z u n mu i else 0) [0..<n],
              map (\<lambda>i. if i < k then grid_x n i else 1) [0..<n])"
    using step by (simp only: pb_loop_append ebind_Inr)
  also have "\<dots> = Inr ((map (\<lambda>j. if Suc j < k then grid_b n j else 0) [0..<n - 1])[k - 1 := grid_b n (k - 1)],
              (map (\<lambda>i. if i < k then grid_c n i else 0) [0..<n - 1])[k := grid_c n k],
              (map (\<lambda>i. if i < k then pb_z u n mu i else 0) [0..<n])[k := pb_z u n mu k],
              (map (\<lambda>i. if i < k then grid_x n i else 1) [0..<n])[k := grid_x n k])"
    by (rule pb_loop_step) (use step assms in auto)
  also have "(map (\<lambda>j. if Suc j < k then grid_b n j else 0) [0..<n - 1])[k - 1 := grid_b n (k - 1)]
      = map (\<lambda>j. if Suc j < Suc k then grid_b n j else 0) [0..<n - 1]"
    using step.hyps by (intro nth_equalityI) (auto simp: nth_list_update less_Suc_eq)
  also have "(map (\<lambda>i. if i < k then grid_c n i else 0) [0..<n - 1])[k := grid_c n k]
      = map (\<lambda>i. if i < Suc k then grid_c n i else 0) [0..<n - 1]"
    by (intro nth_equalityI) (auto simp: nth_list_update less_Suc_eq)
  also have "(map (\<lambda>i. if i < k then pb_z u n mu i else 0) [0..<n])[k := pb_z u n mu k]
      = map (\<lambda>i. if i < Suc k then pb_z u n mu i else 0) [0..<n]"
    by (intro nth_equalityI) (auto simp: nth_list_update less_Suc_eq)
  also have "(map (\<lambda>i. if i < k then grid_x n i else 1) [0..<n])[k := grid_x n k]
      = map (\<lambda>i. if i < Suc k then grid_x n i else 1) [0..<n]"
    by (intro nth_equalityI) (auto simp: nth_list_update less_Suc_eq)
  finally show ?case .
qed

lemma pb_assemble_closed:
  assumes "2 \<le> n" "n \<le> length u"
  shows "pb_assemble u n mu =
           Inr (map (grid_x n) [0..<n], map (grid_b n) [0..<n - 1],
                replicate n (- (2 + grid_h n ^ 2)), map (grid_c n) [0..<n - 1],
                map (pb_z u n mu) [0..<n])"
proof -
  from assms have n: "0 < n" by simp
  have loop: "pb_loop (grid_h n) u [1..<n - 1]
           (replicate (n - 1) 0, (replicate (n - 1) 0)[0 := 2],
            (replicate n 0)[0 := pb_z u n mu 0], replicate n 1) =
         Inr (map (\<lambda>j. if Suc j < n - 1 then grid_b n j else 0) [0..<n - 1],
              map (\<lambda>i. if i < n - 1 then grid_c n i else 0) [0..<n - 1],
              map (\<lambda>i. if i < n - 1 then pb_z u n mu i else 0) [0..<n],
              map (\<lambda>i. if i < n - 1 then grid_x n i else 1) [0..<n])"
    by (rule pb_loop_closed) (use assms in auto)
  have xn: "1 + (real n - 1) * grid_h n = grid_x n (n - 1)"
    using n by (simp add: grid_x_def)
  have nz: "2 * grid_x n (n - 1) \<noteq> 0" using grid_x_pos [OF n, of "n - 1"] by simp
  have bq: "1 - grid_h n / (2 * grid_x n (n - 1)) = grid_b n (n - 2)"
    using assms by (simp add: grid_b_def Suc_diff_Suc numeral_2_eq_2)
  have b: "(map (\<lambda>j. if Suc j < n - 1 then grid_b n j else 0) [0..<n - 1])[n - 2 := grid_b n (n - 2)]
      = map (grid_b n) [0..<n - 1]"
    by (intro nth_equalityI) (auto simp: nth_list_update)
  have c: "map (\<lambda>i. if i < n - 1 then grid_c n i else 0) [0..<n - 1] = map (grid_c n) [0..<n - 1]"
    by (intro nth_equalityI) auto
  have x: "(map (\<lambda>i. if i < n - 1 then grid_x n i else 1) [0..<n])[n - 1 := grid_x n (n - 1)]
      = map (grid_x n) [0..<n]"
    by (intro nth_equalityI) (auto simp: nth_list_update)
  have z: "(map (\<lambda>i. if i < n - 1 then pb_z u n mu i else 0) [0..<n])[n - 1 := grid_h n ^ 2 * g (u ! (n - 1))]
      = map (pb_z u n mu) [0..<n]"
    using assms by (intro nth_equalityI) (auto simp: nth_list_update pb_z_def)
  have z0: "(grid_h n)\<^sup>2 * g (u ! 0) + mu * grid_h n * (grid_h n - 2) = pb_z u n mu 0"
    by (simp add: pb_z_def)
  have i1: "int n - 1 = int (n - 1)" using n by simp
  have pd: "py_div 10 (real n) = Inr (grid_h n)" using n by (simp add: py_div_def grid_h_def)
  have pq: "py_div (grid_h n) (2 * grid_x n (n - 1)) = Inr (grid_h n / (2 * grid_x n (n - 1)))"
    using nz by (simp add: py_div_def)
  have u0: "getitem u 0 = Inr (u ! 0)" using assms by auto
  show ?thesis
    unfolding pb_assemble_def pd ebind_Inr Let_def xn i1 u0 z0
    using assms by (auto simp add: loop pq bq b c x z simp del: One_nat_def)
qed

section \<open>Diagonal dominance: the pivots of the grid matrix are negative\<close>

lemma lutri_step_ex:
  assumes "length l = m" "length v = Suc m" "m < length b" "m < length c" "Suc m < length a"
    "v ! m \<noteq> 0"
  shows "lutri_loop a b c [Suc m] (l, v) =
           Inr (l @ [b ! m / v ! m], v @ [a ! Suc m - (b ! m / v ! m) * c ! m])"
  using assms by (simp add: py_div_def nth_append)

lemma lutri_loop_dominant:
  assumes la: "length a = Suc m" and lb: "length b = m" and lc: "length c = m"
    and bpos: "\<forall>i<m. 0 \<le> b ! i" and cpos: "\<forall>i<m. 0 < c ! i"
    and dom: "\<forall>i<Suc m. a ! i + (if 0 < i then b ! (i - 1) else 0) + (if i < m then c ! i else 0) < 0"
    and k: "k \<le> m"
  shows "\<exists>l v. lutri_loop a b c [1..<Suc k] ([], [a ! 0]) = Inr (l, v) \<and>
           length l = k \<and> length v = Suc k \<and>
           (\<forall>i\<le>k. v ! i + (if i < m then c ! i else 0) < 0)"
  using k
proof (induction k)
  case 0
  then show ?case using dom by auto
next
  case (Suc k)
  then obtain l v where
    prev: "lutri_loop a b c [1..<Suc k] ([], [a ! 0]) = Inr (l, v)" and
    len: "length l = k" "length v = Suc k" and
    neg: "\<forall>i\<le>k. v ! i + (if i < m then c ! i else 0) < 0"
    by auto
  from Suc.prems have km: "k < m" by simp
  from neg km have vk: "v ! k + c ! k < 0" by auto
  from cpos km have ck: "0 < c ! k" by simp
  from bpos km have bk: "0 \<le> b ! k" by simp
  from vk ck have vneg: "v ! k < 0" by linarith
  let ?q = "b ! k / v ! k"
  let ?w = "a ! Suc k - ?q * c ! k"
  have step: "lutri_loop a b c [Suc k] (l, v) = Inr (l @ [?q], v @ [?w])"
    by (rule lutri_step_ex) (use len km la lb lc vneg in auto)
  have "c ! k / (- v ! k) \<le> 1" using vk vneg by (simp add: field_simps)
  then have "b ! k * (c ! k / (- v ! k)) \<le> b ! k * 1"
    using bk by (intro mult_left_mono) auto
  then have "- (?q * c ! k) \<le> b ! k" by (simp add: field_simps)
  then have w: "?w \<le> a ! Suc k + b ! k" by simp
  from dom Suc.prems have "a ! Suc k + b ! k + (if Suc k < m then c ! Suc k else 0) < 0"
    by (auto dest!: spec [of _ "Suc k"])
  with w have wneg: "?w + (if Suc k < m then c ! Suc k else 0) < 0" by linarith
  have "lutri_loop a b c [1..<Suc (Suc k)] ([], [a ! 0]) = Inr (l @ [?q], v @ [?w])"
    by (simp only: lutri_loop_Suc prev ebind_Inr step)
  moreover have "\<forall>i\<le>Suc k. (v @ [?w]) ! i + (if i < m then c ! i else 0) < 0"
    using neg wneg len by (auto simp: nth_append le_Suc_eq)
  ultimately show ?case using len by auto
qed

lemma lutri_dominant:
  assumes la: "length a = Suc m" and lb: "length b = m" and lc: "length c = m"
    and bpos: "\<forall>i<m. 0 \<le> b ! i" and cpos: "\<forall>i<m. 0 < c ! i"
    and dom: "\<forall>i<Suc m. a ! i + (if 0 < i then b ! (i - 1) else 0) + (if i < m then c ! i else 0) < 0"
  shows "\<exists>l v. lutri a b c = Inr (l, v) \<and> length v = Suc m \<and> (\<forall>i<Suc m. v ! i < 0)"
proof -
  from lutri_loop_dominant [OF assms le_refl] obtain l v where
    lv: "lutri_loop a b c [1..<Suc m] ([], [a ! 0]) = Inr (l, v)" "length v = Suc m"
    and neg: "\<forall>i\<le>m. v ! i + (if i < m then c ! i else 0) < 0" by blast
  have "v ! i < 0" if "i < Suc m" for i
  proof -
    from that neg have "v ! i + (if i < m then c ! i else 0) < 0" by simp
    moreover have "0 \<le> (if i < m then c ! i else 0)" using cpos by (auto intro: less_imp_le)
    ultimately show ?thesis by linarith
  qed
  moreover have "lutri a b c = Inr (l, v)"
    using la lv by (auto simp: lutri_def)
  ultimately show ?thesis using lv by blast
qed

lemma grid_b_bounds: "0 < n \<Longrightarrow> 0 < grid_b n j \<and> grid_b n j < 1"
proof -
  assume n: "0 < n"
  have h: "0 < grid_h n" by (rule grid_h_pos [OF n])
  have "grid_h n < 2 * grid_x n (Suc j)"
    using h by (simp add: grid_x_def algebra_simps add_pos_nonneg)
  moreover have "0 < 2 * grid_x n (Suc j)" using grid_x_pos [OF n] by simp
  ultimately have "grid_h n / (2 * grid_x n (Suc j)) < 1" "0 < grid_h n / (2 * grid_x n (Suc j))"
    using h by simp_all
  then show ?thesis by (simp add: grid_b_def)
qed

lemma grid_c_pos: "0 < n \<Longrightarrow> 0 < grid_c n i"
  using grid_h_pos [of n] grid_x_pos [of n i]
  by (auto simp: grid_c_def intro!: add_pos_pos divide_pos_pos)

lemma grid_bc_sum: "0 < i \<Longrightarrow> grid_b n (i - 1) + grid_c n i = 2"
  by (simp add: grid_b_def grid_c_def)

lemma grid_lutri:
  assumes "2 \<le> n"
  shows "\<exists>l v. lutri (replicate n (- (2 + grid_h n ^ 2))) (map (grid_b n) [0..<n - 1])
                  (map (grid_c n) [0..<n - 1]) = Inr (l, v) \<and>
               length v = n \<and> (\<forall>i<n. v ! i < 0)"
proof -
  from assms have n: "0 < n" by simp
  obtain m where m: "n = Suc m" using n by (cases n) auto
  define H where "H = grid_h n ^ 2"
  have h2: "0 < H" using grid_h_pos [OF n] by (simp add: H_def)
  let ?a = "replicate n (- (2 + grid_h n ^ 2))"
  let ?b = "map (grid_b n) [0..<n - 1]" and ?c = "map (grid_c n) [0..<n - 1]"
  have dom: "?a ! i + (if 0 < i then ?b ! (i - 1) else 0) + (if i < m then ?c ! i else 0) < 0"
    if "i < Suc m" for i
  proof -
    from that m have "i < n" by simp
    then have ai: "?a ! i = - (2 + H)" by (simp add: H_def)
    show ?thesis
    proof (cases "i = 0")
      case True
      have "?c ! 0 = 2" if "0 < m"
      proof -
        from that m have "0 < n - 1" by simp
        then show ?thesis by (simp add: grid_c_def)
      qed
      then show ?thesis unfolding ai using True h2 by auto
    next
      case False
      then have i: "0 < i" by simp
      from that m i have "i - 1 < n - 1" by simp
      then have bi: "?b ! (i - 1) = grid_b n (i - 1)" by simp
      show ?thesis
      proof (cases "i < m")
        case True
        with m have "i < n - 1" by simp
        then have "?c ! i = grid_c n i" by simp
        then show ?thesis unfolding ai bi using i True h2 grid_bc_sum [OF i, of n] by simp
      next
        case False
        then show ?thesis unfolding ai bi using i h2 grid_b_bounds [OF n, of "i - 1"] by simp
      qed
    qed
  qed
  have "\<exists>l v. lutri ?a ?b ?c = Inr (l, v) \<and> length v = Suc m \<and> (\<forall>i<Suc m. v ! i < 0)"
  proof (rule lutri_dominant)
    show "length ?a = Suc m" "length ?b = m" "length ?c = m" using m by simp_all
    show "\<forall>i<m. 0 \<le> ?b ! i" using grid_b_bounds [OF n] m by (auto intro: less_imp_le)
    show "\<forall>i<m. 0 < ?c ! i" using grid_c_pos [OF n] m by auto
    show "\<forall>i<Suc m. ?a ! i + (if 0 < i then ?b ! (i - 1) else 0) + (if i < m then ?c ! i else 0) < 0"
      using dom by blast
  qed
  then show ?thesis using m by simp
qed

section \<open>The linear and the fixed-point solve\<close>

lemma grid_solve:
  assumes "2 \<le> n" "length z = n"
  shows "\<exists>l v y x A.
           lutri (replicate n (- (2 + grid_h n ^ 2))) (map (grid_b n) [0..<n - 1])
                 (map (grid_c n) [0..<n - 1]) = Inr (l, v) \<and>
           descente l z = Inr y \<and> remontee v (map (grid_c n) [0..<n - 1]) y = Inr x \<and>
           length x = n \<and>
           tridiag (map (grid_b n) [0..<n - 1], replicate n (- (2 + grid_h n ^ 2)),
                    map (grid_c n) [0..<n - 1]) = Inr A \<and>
           dot A x = Inr z"
proof -
  let ?a = "replicate n (- (2 + grid_h n ^ 2))"
  let ?b = "map (grid_b n) [0..<n - 1]" and ?c = "map (grid_c n) [0..<n - 1]"
  from grid_lutri [OF assms(1)] obtain l v where
    lu: "lutri ?a ?b ?c = Inr (l, v)" and lv: "length v = n" and neg: "\<forall>i<n. v ! i < 0"
    by blast
  have nz: "0 \<notin> set v"
  proof
    assume "0 \<in> set v"
    then obtain i where "i < length v" "v ! i = 0" by (auto simp: in_set_conv_nth)
    with neg lv show False by auto
  qed
  have "\<exists>y x A. descente l z = Inr y \<and> remontee v ?c y = Inr x \<and> length x = length ?a \<and>
           tridiag (?b, ?a, ?c) = Inr A \<and> dot A x = Inr z"
    by (rule lu_solve [OF _ _ _ lu nz]) (use assms in auto)
  with lu show ?thesis by auto
qed

lemma solve_debye_huckel_closed:
  assumes "2 \<le> n"
  shows "\<exists>u A. solve_debye_huckel n mu =
             Inr (map (grid_x n) [0..<n], u,
                  (map (grid_b n) [0..<n - 1], replicate n (- (2 + grid_h n ^ 2)),
                   map (grid_c n) [0..<n - 1])) \<and>
           length u = n \<and>
           tridiag (map (grid_b n) [0..<n - 1], replicate n (- (2 + grid_h n ^ 2)),
                    map (grid_c n) [0..<n - 1]) = Inr A \<and>
           dot A u = Inr ((replicate n 0)[0 := mu * grid_h n * (grid_h n - 2)])"
proof -
  let ?z = "(replicate n 0)[0 := mu * grid_h n * (grid_h n - 2)]"
  have "length ?z = n" by simp
  from grid_solve [OF assms this] obtain l v y x A where
    "lutri (replicate n (- (2 + grid_h n ^ 2))) (map (grid_b n) [0..<n - 1])
                 (map (grid_c n) [0..<n - 1]) = Inr (l, v)"
    "descente l ?z = Inr y" "remontee v (map (grid_c n) [0..<n - 1]) y = Inr x" "length x = n"
    "tridiag (map (grid_b n) [0..<n - 1], replicate n (- (2 + grid_h n ^ 2)),
                    map (grid_c n) [0..<n - 1]) = Inr A" "dot A x = Inr ?z"
    by blast
  then show ?thesis
    by (simp add: solve_debye_huckel_def dh_assemble_closed [OF assms])
qed

lemma solve_poisson_boltzmann_closed:
  assumes "2 \<le> n" "n \<le> length u"
  shows "\<exists>u' A. solve_poisson_boltzmann u n mu =
             Inr (map (grid_x n) [0..<n], u', map (pb_z u n mu) [0..<n]) \<and>
           length u' = n \<and>
           tridiag (map (grid_b n) [0..<n - 1], replicate n (- (2 + grid_h n ^ 2)),
                    map (grid_c n) [0..<n - 1]) = Inr A \<and>
           dot A u' = Inr (map (pb_z u n mu) [0..<n])"
proof -
  let ?z = "map (pb_z u n mu) [0..<n]"
  have "length ?z = n" by simp
  from grid_solve [OF assms(1) this] obtain l v y x A where
    "lutri (replicate n (- (2 + grid_h n ^ 2))) (map (grid_b n) [0..<n - 1])
                 (map (grid_c n) [0..<n - 1]) = Inr (l, v)"
    "descente l ?z = Inr y" "remontee v (map (grid_c n) [0..<n - 1]) y = Inr x" "length x = n"
    "tridiag (map (grid_b n) [0..<n - 1], replicate n (- (2 + grid_h n ^ 2)),
                    map (grid_c n) [0..<n - 1]) = Inr A" "dot A x = Inr ?z"
    by blast
  then show ?thesis
    by (simp add: solve_poisson_boltzmann_def pb_assemble_closed [OF assms])
qed

text \<open>
  C2. For \<open>n \<ge> 2\<close> and \<open>h = 10 / n\<close>, \<open>solve_debye_huckel\<close> assembles the diagonal
  \<open>a[i] = -(2 + h\<^sup>2)\<close>, the interior rows \<open>b[i - 1] = 1 - h / (2 x\<^sub>i)\<close>,
  \<open>c[i] = 1 + h / (2 x\<^sub>i)\<close>, \<open>z[i] = 0\<close> for \<open>i = 1, ..., n - 2\<close> with
  \<open>x\<^sub>i = 1 + i h\<close>, the first row \<open>c[0] = 2\<close>, \<open>z[0] = mu h (h - 2)\<close>, the last row
  \<open>b[n - 2] = 1 - h / (2 x\<^sub>n\<^sub>-\<^sub>1)\<close>, \<open>z[n - 1] = 0\<close>, and returns the coordinates
  \<open>x[i] = 1 + i h\<close>, a vector of length \<open>n\<close>.
\<close>

theorem solve_debye_huckel_assembly:
  assumes "2 \<le> n"
  shows "let h = 10 / real n in
         \<exists>x u b a c z.
           dh_assemble n mu = Inr (x, b, a, c, z) \<and>
           solve_debye_huckel n mu = Inr (x, u, (b, a, c)) \<and>
           length a = n \<and> length b = n - 1 \<and> length c = n - 1 \<and> length z = n \<and>
           (\<forall>i<n. a ! i = - (2 + h ^ 2)) \<and>
           (\<forall>i. 1 \<le> i \<and> i \<le> n - 2 \<longrightarrow>
                b ! (i - 1) = 1 - h / (2 * (1 + real i * h)) \<and>
                c ! i = 1 + h / (2 * (1 + real i * h)) \<and> z ! i = 0) \<and>
           c ! 0 = 2 \<and> z ! 0 = mu * h * (h - 2) \<and>
           b ! (n - 2) = 1 - h / (2 * (1 + real (n - 1) * h)) \<and> z ! (n - 1) = 0 \<and>
           length x = n \<and> (\<forall>i<n. x ! i = 1 + real i * h)"
proof -
  from solve_debye_huckel_closed [OF assms, of mu] obtain u where
    u: "solve_debye_huckel n mu =
             Inr (map (grid_x n) [0..<n], u,
                  (map (grid_b n) [0..<n - 1], replicate n (- (2 + grid_h n ^ 2)),
                   map (grid_c n) [0..<n - 1]))" by blast
  have b: "map (grid_b n) [0..<n - 1] ! (i - 1) = 1 - grid_h n / (2 * (1 + real i * grid_h n))"
    if "1 \<le> i" "i \<le> n - 1" for i
    using that by (simp add: grid_b_def grid_x_def)
  have c: "map (grid_c n) [0..<n - 1] ! i = 1 + grid_h n / (2 * (1 + real i * grid_h n))"
    if "1 \<le> i" "i \<le> n - 2" for i
    using that assms by (simp add: grid_c_def grid_x_def)
  have c0: "map (grid_c n) [0..<n - 1] ! 0 = 2" using assms by (simp add: grid_c_def)
  have bn: "map (grid_b n) [0..<n - 1] ! (n - 2) = 1 - grid_h n / (2 * (1 + real (n - 1) * grid_h n))"
    using b [of "n - 1"] assms by (simp add: numeral_2_eq_2)
  have "\<exists>x u b a c z.
           dh_assemble n mu = Inr (x, b, a, c, z) \<and>
           solve_debye_huckel n mu = Inr (x, u, (b, a, c)) \<and>
           length a = n \<and> length b = n - 1 \<and> length c = n - 1 \<and> length z = n \<and>
           (\<forall>i<n. a ! i = - (2 + grid_h n ^ 2)) \<and>
           (\<forall>i. 1 \<le> i \<and> i \<le> n - 2 \<longrightarrow>
                b ! (i - 1) = 1 - grid_h n / (2 * (1 + real i * grid_h n)) \<and>
                c ! i = 1 + grid_h n / (2 * (1 + real i * grid_h n)) \<and> z ! i = 0) \<and>
           c ! 0 = 2 \<and> z ! 0 = mu * grid_h n * (grid_h n - 2) \<and>
           b ! (n - 2) = 1 - grid_h n / (2 * (1 + real (n - 1) * grid_h n)) \<and> z ! (n - 1) = 0 \<and>
           length x = n \<and> (\<forall>i<n. x ! i = 1 + real i * grid_h n)"
    unfolding dh_assemble_closed [OF assms] u
    apply (intro exI conjI)
                 apply (rule refl)
                apply (rule refl)
    using assms b c c0 bn by (auto simp: nth_list_update grid_x_def)
  then show ?thesis unfolding Let_def grid_h_def .
qed

text \<open>The theorem at \<open>n = 2\<close>, \<open>mu = 1\<close>.\<close>

theorem solve_debye_huckel_assembly_witness:
  "\<exists>x u b a c z.
     dh_assemble 2 1 = Inr (x, b, a, c, z) \<and> solve_debye_huckel 2 1 = Inr (x, u, (b, a, c)) \<and>
     a = [- 27, - 27] \<and> b = [7 / 12] \<and> c = [2] \<and> z = [15, 0] \<and> x = [1, 6]"
proof -
  have n: "(2::nat) \<le> 2" by simp
  have "dh_assemble 2 1 = Inr ([1, 6], [7 / 12], [- 27, - 27], [2], [15, 0])"
    by (simp add: dh_assemble_def py_div_def Let_def numeral_2_eq_2)
  with solve_debye_huckel_assembly [OF n, of 1] show ?thesis
    by (auto simp: Let_def)
qed

text \<open>
  C10, as amended. For every \<open>n \<ge> 2\<close> and every \<open>mu\<close>, \<open>solve_debye_huckel\<close>
  returns without error a coordinate vector and a solution vector of length \<open>n\<close> and
  diagonals of lengths \<open>n - 1\<close>, \<open>n\<close>, \<open>n - 1\<close>.
\<close>

theorem solve_debye_huckel_returns:
  assumes "2 \<le> n"
  shows "\<exists>x u b a c. solve_debye_huckel n mu = Inr (x, u, (b, a, c)) \<and>
           length x = n \<and> length u = n \<and> length b = n - 1 \<and> length a = n \<and> length c = n - 1"
  using solve_debye_huckel_closed [OF assms, of mu] by auto

theorem solve_debye_huckel_returns_witness:
  "\<exists>x u b a c. solve_debye_huckel 2 1 = Inr (x, u, (b, a, c)) \<and>
     length x = 2 \<and> length u = 2 \<and> length b = 1 \<and> length a = 2 \<and> length c = 1"
proof -
  have n: "(2::nat) \<le> 2" by simp
  from solve_debye_huckel_returns [OF n, of 1] show ?thesis by simp
qed

text \<open>
  At \<open>n = 1\<close> the super-diagonal is empty and the assignment \<open>c[0] = 2\<close> raises
  IndexError.
\<close>

theorem solve_debye_huckel_one: "solve_debye_huckel 1 1 = Inl IndexError"
  by (simp add: solve_debye_huckel_def dh_assemble_def py_div_def)

text \<open>
  C4. For \<open>n \<ge> 2\<close> and an iterate \<open>u\<close> of length \<open>n\<close>, \<open>solve_poisson_boltzmann\<close>
  assembles the same grid and the same diagonals \<open>(b, a, c)\<close> as
  \<open>solve_debye_huckel\<close>, whatever \<open>u\<close> is; its right-hand side is
  \<open>z[i] = h\<^sup>2 (sinh(u[i]) - u[i])\<close> at every row, plus \<open>mu h (h - 2)\<close> at row 0.
\<close>

theorem fixed_point_same_matrix:
  assumes "2 \<le> n" and "length u = n"
  shows "let h = 10 / real n in
         \<exists>x b a c z0 z u_suivant.
           dh_assemble n mu = Inr (x, b, a, c, z0) \<and>
           pb_assemble u n mu = Inr (x, b, a, c, z) \<and>
           solve_poisson_boltzmann u n mu = Inr (x, u_suivant, z) \<and>
           length z = n \<and>
           (\<forall>i<n. z ! i = h ^ 2 * (sinh (u ! i) - u ! i) + (if i = 0 then mu * h * (h - 2) else 0))"
proof -
  from assms have le: "n \<le> length u" by simp
  from solve_poisson_boltzmann_closed [OF assms(1) le, of mu] obtain u' where
    "solve_poisson_boltzmann u n mu =
             Inr (map (grid_x n) [0..<n], u', map (pb_z u n mu) [0..<n])" by blast
  then have "\<exists>x b a c z0 z u_suivant.
           dh_assemble n mu = Inr (x, b, a, c, z0) \<and>
           pb_assemble u n mu = Inr (x, b, a, c, z) \<and>
           solve_poisson_boltzmann u n mu = Inr (x, u_suivant, z) \<and>
           length z = n \<and>
           (\<forall>i<n. z ! i = grid_h n ^ 2 * (sinh (u ! i) - u ! i)
                     + (if i = 0 then mu * grid_h n * (grid_h n - 2) else 0))"
    unfolding dh_assemble_closed [OF assms(1)] pb_assemble_closed [OF assms(1) le]
    by (simp add: pb_z_def g_def)
  then show ?thesis unfolding Let_def grid_h_def .
qed

text \<open>The theorem at \<open>n = 2\<close>, \<open>u = [0, 0]\<close>, \<open>mu = 1\<close>.\<close>

theorem fixed_point_same_matrix_witness:
  "\<exists>x b a c z0 z u_suivant.
     dh_assemble 2 1 = Inr (x, b, a, c, z0) \<and> pb_assemble [0, 0] 2 1 = Inr (x, b, a, c, z) \<and>
     solve_poisson_boltzmann [0, 0] 2 1 = Inr (x, u_suivant, z) \<and> z = [15, 0]"
proof -
  have n: "(2::nat) \<le> 2" and u: "length [0, 0 :: real] = 2" by simp_all
  have "pb_assemble [0, 0] 2 1 = Inr ([1, 6], [7 / 12], [- 27, - 27], [2], [15, 0])"
    by (simp add: pb_assemble_def py_div_def Let_def g_def numeral_2_eq_2)
  with fixed_point_same_matrix [OF n u, of 1] show ?thesis
    by (auto simp: Let_def)
qed

section \<open>Vectors longer or shorter than the contract\<close>

subsection \<open>Surplus entries are not read\<close>

lemma getitem_take:
  "i < m \<Longrightarrow> getitem (take m xs) (int i) = getitem xs (int i)"
  by simp

lemma lutri_loop_cong:
  assumes "\<forall>k\<in>set ks. getitem b (int k - 1) = getitem b' (int k - 1) \<and>
                       getitem c (int k - 1) = getitem c' (int k - 1)"
  shows "lutri_loop a b c ks s = lutri_loop a b' c' ks s"
  using assms
proof (induction ks arbitrary: s)
  case Nil
  then show ?case by (cases s) simp
next
  case (Cons k ks)
  obtain l v where s: "s = (l, v)" by (cases s)
  from Cons.prems have k: "getitem b (int k - 1) = getitem b' (int k - 1)"
    "getitem c (int k - 1) = getitem c' (int k - 1)"
    and rest: "\<forall>k\<in>set ks. getitem b (int k - 1) = getitem b' (int k - 1) \<and>
                       getitem c (int k - 1) = getitem c' (int k - 1)" by simp_all
  show ?case unfolding s lutri_loop.simps k Cons.IH [OF rest] ..
qed

lemma getitem_pred_take:
  assumes "0 < k" "k \<le> m"
  shows "getitem (take m xs) (int k - 1) = getitem xs (int k - 1)"
proof -
  have "int k - 1 = int (k - 1)" using assms(1) by simp
  moreover have "k - 1 < m" using assms by simp
  ultimately show ?thesis by (simp only: getitem_take)
qed

lemma lutri_take:
  "lutri a b c = lutri a (take (length a - 1) b) (take (length a - 1) c)"
proof -
  have "lutri_loop a b c [1..<length a] s =
        lutri_loop a (take (length a - 1) b) (take (length a - 1) c) [1..<length a] s" for s
    by (rule lutri_loop_cong) (auto simp: getitem_pred_take)
  then show ?thesis by (simp add: lutri_def)
qed

lemma descente_loop_cong:
  assumes "\<forall>k\<in>set ks. getitem l (int k - 1) = getitem l' (int k - 1)"
  shows "descente_loop l z ks y = descente_loop l' z ks y"
  using assms
proof (induction ks arbitrary: y)
  case Nil
  then show ?case by simp
next
  case (Cons k ks)
  from Cons.prems have k: "getitem l (int k - 1) = getitem l' (int k - 1)"
    and rest: "\<forall>k\<in>set ks. getitem l (int k - 1) = getitem l' (int k - 1)" by simp_all
  show ?case unfolding descente_loop.simps k Cons.IH [OF rest] ..
qed

lemma descente_take: "descente l z = descente (take (length z - 1) l) z"
proof -
  have "descente_loop l z [1..<length z] y =
        descente_loop (take (length z - 1) l) z [1..<length z] y" for y
    by (rule descente_loop_cong) (auto simp: getitem_pred_take)
  then show ?thesis by (simp add: descente_def)
qed

lemma remontee_loop_cong:
  assumes "\<forall>k\<in>set ks. getitem c (int k) = getitem c' (int k) \<and>
                       getitem v (int k) = getitem v' (int k)"
  shows "remontee_loop v c y ks x = remontee_loop v' c' y ks x"
  using assms
proof (induction ks arbitrary: x)
  case Nil
  then show ?case by simp
next
  case (Cons k ks)
  from Cons.prems have k: "getitem c (int k) = getitem c' (int k)"
    "getitem v (int k) = getitem v' (int k)"
    and rest: "\<forall>k\<in>set ks. getitem c (int k) = getitem c' (int k) \<and>
                       getitem v (int k) = getitem v' (int k)" by simp_all
  show ?case unfolding remontee_loop.simps k Cons.IH [OF rest] ..
qed

lemma remontee_take:
  assumes "y \<noteq> []"
  shows "remontee v c y = remontee (take (length y) v) (take (length y - 1) c) y"
proof -
  from assms obtain m where m: "length y = Suc m" by (cases y) auto
  have loop: "remontee_loop v c y (rev [0..<m]) x =
        remontee_loop (take (Suc m) v) (take m c) y (rev [0..<m]) x" for x
    by (rule remontee_loop_cong) (auto simp del: getitem_nat simp: getitem_take)
  have last: "getitem (take (Suc m) v) (int m) = getitem v (int m)"
    by (rule getitem_take) simp
  have i: "int (Suc m) - 1 = int m" by simp
  show ?thesis
    unfolding remontee_def Let_def m i diff_Suc_1 last loop ..
qed

lemma remontee_take_all:
  "remontee v c y = remontee (take (length y) v) (take (length y - 1) c) y"
proof (cases "y = []")
  case True
  then show ?thesis by (simp add: remontee_def getitem_def py_index_def)
next
  case False
  then show ?thesis by (rule remontee_take)
qed

subsection \<open>Vectors that are long enough are accepted\<close>

lemma lutri_loop_no_IndexError:
  assumes "m \<le> length b" "m \<le> length c" "m = 0 \<or> m < length a"
  shows "lutri_loop a b c [1..<Suc m] ([], [a0]) \<noteq> Inl IndexError"
  using assms
proof (induction m)
  case 0
  then show ?case by simp
next
  case (Suc m)
  then have ih: "lutri_loop a b c [1..<Suc m] ([], [a0]) \<noteq> Inl IndexError" by auto
  show ?case
  proof (cases "lutri_loop a b c [1..<Suc m] ([], [a0])")
    case (Inl e)
    with ih show ?thesis by (simp only: lutri_loop_Suc ebind_Inl) auto
  next
    case (Inr s)
    obtain l v where s: "s = (l, v)" by (cases s)
    from lutri_loop_props [OF Inr [unfolded s]] have len: "length l = m" "length v = Suc m"
      by simp_all
    have "lutri_loop a b c [Suc m] (l, v) \<noteq> Inl IndexError"
      using len Suc.prems by (simp add: py_div_def nth_append)
    then show ?thesis unfolding lutri_loop_Suc Inr s ebind_Inr .
  qed
qed

lemma lutri_no_IndexError:
  assumes "a \<noteq> []" "length a - 1 \<le> length b" "length a - 1 \<le> length c"
  shows "lutri a b c \<noteq> Inl IndexError"
proof -
  from assms(1) obtain m where m: "length a = Suc m" by (cases a) auto
  have "lutri_loop a b c [1..<Suc m] ([], [a ! 0]) \<noteq> Inl IndexError"
    by (rule lutri_loop_no_IndexError) (use assms m in auto)
  then show ?thesis using assms(1) by (simp add: lutri_def m)
qed

lemma lutri_loop_complete:
  assumes "length l = m" "length v = Suc m" "v ! 0 = a0"
    and "\<forall>i<m. v ! i \<noteq> 0 \<and> l ! i = b ! i / v ! i \<and> v ! Suc i = a ! Suc i - l ! i * c ! i"
    and "m \<le> length b" "m \<le> length c" "m = 0 \<or> m < length a" and "k \<le> m"
  shows "lutri_loop a b c [1..<Suc k] ([], [a0]) = Inr (take k l, take (Suc k) v)"
  using assms(8)
proof (induction k)
  case 0
  have "take (Suc 0) v = [v ! 0]" using assms(2) by (cases v) auto
  then show ?case using assms(3) by simp
next
  case (Suc k)
  then have km: "k < m" and
    ih: "lutri_loop a b c [1..<Suc k] ([], [a0]) = Inr (take k l, take (Suc k) v)" by simp_all
  from assms(4) km have piv: "v ! k \<noteq> 0" and lk: "l ! k = b ! k / v ! k"
    and vk: "v ! Suc k = a ! Suc k - l ! k * c ! k" by simp_all
  have vt: "take (Suc k) v ! k = v ! k" by simp
  have "lutri_loop a b c [Suc k] (take k l, take (Suc k) v) =
          Inr (take k l @ [b ! k / take (Suc k) v ! k],
               take (Suc k) v @ [a ! Suc k - (b ! k / take (Suc k) v ! k) * c ! k])"
    by (rule lutri_step_ex) (use assms km piv in auto)
  also have "take k l @ [b ! k / take (Suc k) v ! k] = take (Suc k) l"
    unfolding vt using km assms(1) lk by (simp add: take_Suc_conv_app_nth)
  also have "take (Suc k) v @ [a ! Suc k - (b ! k / take (Suc k) v ! k) * c ! k]
               = take (Suc (Suc k)) v"
    unfolding vt using km assms(2) lk vk by (simp add: take_Suc_conv_app_nth [of "Suc k"])
  finally show ?case by (simp only: lutri_loop_Suc ih ebind_Inr)
qed

lemma lutri_complete:
  assumes "a \<noteq> []" "length a - 1 \<le> length b" "length a - 1 \<le> length c"
    and "length l = length a - 1" "length v = length a" "v ! 0 = a ! 0"
    and "\<forall>i<length a - 1. v ! i \<noteq> 0 \<and> l ! i = b ! i / v ! i \<and>
            v ! Suc i = a ! Suc i - l ! i * c ! i"
  shows "lutri a b c = Inr (l, v)"
proof -
  from assms(1) obtain m where m: "length a = Suc m" by (cases a) auto
  have "lutri_loop a b c [1..<Suc m] ([], [a ! 0]) = Inr (take m l, take (Suc m) v)"
    by (rule lutri_loop_complete [where m = m]) (use assms m in auto)
  then show ?thesis using assms(1,4,5) m by (simp add: lutri_def)
qed

lemma lutri_iff:
  "lutri a b c = Inr (l, v) \<longleftrightarrow>
     a \<noteq> [] \<and> length a - 1 \<le> length b \<and> length a - 1 \<le> length c \<and>
     length l = length a - 1 \<and> length v = length a \<and> v ! 0 = a ! 0 \<and>
     (\<forall>i<length a - 1. v ! i \<noteq> 0 \<and> l ! i = b ! i / v ! i \<and>
          v ! Suc i = a ! Suc i - l ! i * c ! i)"
  using lutri_Inr [of a b c l v] lutri_complete [of a b c l v] by blast

lemma descente_iff:
  "descente l z = Inr y \<longleftrightarrow>
     z \<noteq> [] \<and> length z - 1 \<le> length l \<and> length y = length z \<and> y ! 0 = z ! 0 \<and>
     (\<forall>i<length z - 1. y ! Suc i = z ! Suc i - l ! i * y ! i)"
proof
  assume "descente l z = Inr y"
  from descente_Inr [OF this] show "z \<noteq> [] \<and> length z - 1 \<le> length l \<and> length y = length z \<and>
     y ! 0 = z ! 0 \<and> (\<forall>i<length z - 1. y ! Suc i = z ! Suc i - l ! i * y ! i)" by blast
next
  assume r: "z \<noteq> [] \<and> length z - 1 \<le> length l \<and> length y = length z \<and> y ! 0 = z ! 0 \<and>
     (\<forall>i<length z - 1. y ! Suc i = z ! Suc i - l ! i * y ! i)"
  then obtain y' where y': "descente l z = Inr y'" using descente_ex [of z l] by blast
  note D = descente_Inr [OF y']
  have "y ! i = y' ! i" if "i < length z" for i
    using that
  proof (induction i)
    case 0
    then show ?case using r D by simp
  next
    case (Suc i)
    then have "i < length z - 1" by simp
    with r D Suc show ?case by simp
  qed
  then have "y = y'" using r D by (intro nth_equalityI) simp_all
  with y' show "descente l z = Inr y" by simp
qed

lemma remontee_loop_no_IndexError:
  assumes "x \<noteq> []" "m \<le> length y" "m \<le> length c" "m \<le> length v"
  shows "remontee_loop v c y (rev [0..<m]) x \<noteq> Inl IndexError"
  using assms
proof (induction m arbitrary: x)
  case 0
  then show ?case by simp
next
  case (Suc m)
  then show ?case unfolding remontee_loop_Suc by (simp add: py_div_def)
qed

lemma remontee_no_IndexError:
  assumes "y \<noteq> []" "length y \<le> length v" "length y - 1 \<le> length c"
  shows "remontee v c y \<noteq> Inl IndexError"
proof -
  from assms(1) obtain m where m: "length y = Suc m" by (cases y) auto
  have "remontee_loop v c y (rev [0..<m]) [y ! m / v ! m] \<noteq> Inl IndexError"
    by (rule remontee_loop_no_IndexError) (use assms m in auto)
  then show ?thesis unfolding remontee_unfold [OF m] using assms m by simp
qed

lemma backward_unique:
  fixes x x' :: "real list"
  assumes "0 < n" and "x ! (n - 1) = x' ! (n - 1)"
    and "\<forall>i<n - 1. x ! i = G i (x ! Suc i)" and "\<forall>i<n - 1. x' ! i = G i (x' ! Suc i)"
    and "j < n"
  shows "x ! (n - 1 - j) = x' ! (n - 1 - j)"
  using assms(5)
proof (induction j)
  case 0
  then show ?case using assms(2) by simp
next
  case (Suc j)
  then have i: "n - 1 - Suc j < n - 1" and s: "Suc (n - 1 - Suc j) = n - 1 - j" by simp_all
  from Suc have eq: "x ! (n - 1 - j) = x' ! (n - 1 - j)" by simp
  from assms(3) i have "x ! (n - 1 - Suc j) = G (n - 1 - Suc j) (x ! Suc (n - 1 - Suc j))"
    by blast
  moreover from assms(4) i have
    "x' ! (n - 1 - Suc j) = G (n - 1 - Suc j) (x' ! Suc (n - 1 - Suc j))" by blast
  ultimately show ?case unfolding s eq by simp
qed

lemma remontee_complete:
  assumes "y \<noteq> []" "length y \<le> length v" "length y - 1 \<le> length c"
    and "\<forall>i<length y. v ! i \<noteq> 0" and "length x = length y"
    and "x ! (length y - 1) = y ! (length y - 1) / v ! (length y - 1)"
    and "\<forall>i<length y - 1. x ! i = (y ! i - c ! i * x ! Suc i) / v ! i"
  shows "remontee v c y = Inr x"
proof -
  from remontee_ex [OF assms(1-4)] obtain x' where x': "remontee v c y = Inr x'" by blast
  note R = remontee_Inr [OF x']
  define n where "n = length y"
  have n: "0 < n" using assms(1) by (simp add: n_def)
  have last: "x ! (n - 1) = x' ! (n - 1)" using assms(6) R by (simp add: n_def)
  have rx: "\<forall>i<n - 1. x ! i = (\<lambda>i t. (y ! i - c ! i * t) / v ! i) i (x ! Suc i)"
    using assms(7) by (simp add: n_def)
  have rx': "\<forall>i<n - 1. x' ! i = (\<lambda>i t. (y ! i - c ! i * t) / v ! i) i (x' ! Suc i)"
    using R by (simp add: n_def)
  have "x ! i = x' ! i" if "i < n" for i
  proof -
    have "n - 1 - i < n" using n by simp
    from backward_unique [OF n last rx rx' this] that show ?thesis by simp
  qed
  then have "x = x'" using assms(5) R by (intro nth_equalityI) (simp_all add: n_def)
  with x' show ?thesis by simp
qed

subsection \<open>The nonlinear assembler on an iterate of any length\<close>

lemma setitem_Inl: "setitem xs i v = Inl e \<Longrightarrow> e = IndexError"
  by (auto simp: setitem_def split: option.splits)

lemma ebind_InlE:
  assumes "ebind m f = Inl e"
  obtains "m = Inl e" | x where "m = Inr x" "f x = Inl e"
  using assms by (cases m) simp_all

lemma case_prod_InlE:
  assumes "(case p of (a, b) \<Rightarrow> f a b) = Inl e"
  obtains a b where "p = (a, b)" "f a b = Inl e"
  using assms by (cases p) auto

lemma py_div_pos: "0 < q \<Longrightarrow> py_div p q = Inr (p / q)"
  by (simp add: py_div_def)

lemma pb_loop_Inl:
  assumes "0 < h" "pb_loop h u ks s = Inl e"
  shows "e = IndexError"
  using assms(2)
proof (induction ks arbitrary: s)
  case Nil
  then show ?case by (cases s) simp
next
  case (Cons k ks)
  obtain b c z x where s: "s = (b, c, z, x)" by (cases s)
  have "0 < 2 * (1 + real k * h)" using assms(1) by (simp add: add_pos_nonneg)
  then have pd: "py_div h (2 * (1 + real k * h)) = Inr (h / (2 * (1 + real k * h)))"
    by (rule py_div_pos)
  from Cons.prems show ?case
    unfolding s pb_loop.simps Let_def pd ebind_Inr
    by (auto dest!: ebind_Inl_cases dest: getitem_Inl setitem_Inl Cons.IH split: if_splits)
qed

lemma pb_assemble_Inl:
  assumes "0 < n" "pb_assemble u n mu = Inl e"
  shows "e = IndexError"
proof -
  define h where "h = 10 / real n"
  have h: "0 < h" using assms(1) by (simp add: h_def)
  have pd: "py_div 10 (real n) = Inr h" using assms(1) by (simp add: py_div_def h_def)
  have "0 < 2 * (1 + (real n - 1) * h)" using assms(1) h by (simp add: add_pos_nonneg)
  then have pq: "py_div h (2 * (1 + (real n - 1) * h)) = Inr (h / (2 * (1 + (real n - 1) * h)))"
    by (rule py_div_pos)
  from assms(2) show ?thesis
    unfolding pb_assemble_def pd ebind_Inr Let_def pq
    apply -
    apply (erule ebind_InlE, erule getitem_Inl)
    apply (erule ebind_InlE, erule setitem_Inl)
    apply (erule ebind_InlE, erule setitem_Inl)
    apply (erule ebind_InlE, erule pb_loop_Inl [OF h])
    apply (erule case_prod_InlE)
    apply (erule case_prod_InlE)
    apply (erule case_prod_InlE)
    apply (erule ebind_InlE, erule setitem_Inl)
    apply (erule ebind_InlE, erule getitem_Inl)
    apply (erule ebind_InlE, erule setitem_Inl)
    apply (erule ebind_InlE, erule setitem_Inl)
    apply simp
    done
qed

lemma solve_poisson_boltzmann_zero: "solve_poisson_boltzmann u 0 mu = Inl ZeroDivisionError"
  by (simp add: solve_poisson_boltzmann_def pb_assemble_def py_div_def)

lemma solve_poisson_boltzmann_short:
  assumes "0 < n" "n < 2 \<or> length u < n"
  shows "solve_poisson_boltzmann u n mu = Inl IndexError"
proof (cases "pb_assemble u n mu")
  case (Inl e)
  from pb_assemble_Inl [OF assms(1) Inl] Inl show ?thesis
    by (simp add: solve_poisson_boltzmann_def)
next
  case (Inr r)
  from pb_assemble_Inr [OF Inr] assms(2) show ?thesis by simp
qed

lemma pb_z_take: "i < n \<Longrightarrow> pb_z (take n u) n mu i = pb_z u n mu i"
  by (simp add: pb_z_def)

lemma solve_poisson_boltzmann_take:
  "solve_poisson_boltzmann u n mu = solve_poisson_boltzmann (take n u) n mu"
proof -
  consider "n = 0" | "0 < n" "n < 2 \<or> length u < n" | "2 \<le> n" "n \<le> length u"
    by linarith
  then show ?thesis
  proof cases
    case 1
    then show ?thesis by (simp add: solve_poisson_boltzmann_zero)
  next
    case 2
    then have "n < 2 \<or> length (take n u) < n" by auto
    from solve_poisson_boltzmann_short [OF 2] solve_poisson_boltzmann_short [OF 2(1) this]
    show ?thesis by simp
  next
    case 3
    then have t: "n \<le> length (take n u)" by simp
    have "map (pb_z (take n u) n mu) [0..<n] = map (pb_z u n mu) [0..<n]"
      by (simp add: pb_z_take)
    then have "pb_assemble (take n u) n mu = pb_assemble u n mu"
      by (simp only: pb_assemble_closed [OF 3] pb_assemble_closed [OF 3(1) t])
    then show ?thesis by (simp only: solve_poisson_boltzmann_def)
  qed
qed

lemma solve_poisson_boltzmann_ex:
  assumes "2 \<le> n" "n \<le> length u"
  shows "\<exists>r. solve_poisson_boltzmann u n mu = Inr r"
  using solve_poisson_boltzmann_closed [OF assms, of mu] by blast

subsection \<open>What the routines accept and how they fail\<close>

text \<open>
  The factoriser does not check the lengths of its arguments: with a diagonal of length 2
  and a sub- and a super-diagonal of length 3 it returns a factorisation, the surplus
  entries unread.
\<close>

theorem lutri_accepts_long_vectors:
  "length [3, 4, 5 :: real] \<noteq> length [1, 2 :: real] - 1 \<and>
   lutri [1, 2] [3, 4, 5] [6, 7, 8] = Inr ([3], [1, - 16])"
  by (simp add: lutri_def py_div_def)

text \<open>
  C9, as amended. No routine checks a length and there is no InvalidDimensions error: a
  call returns or fails according to whether the reads of its loop are in range.

  \<open>lutri a b c\<close> returns only if \<open>a\<close> is not empty and \<open>b\<close> and \<open>c\<close> have at least
  \<open>len(a) - 1\<close> entries. With such vectors, however long, it returns the factors that the
  recurrence defines whenever the pivots of the recurrence are nonzero, and it never
  raises IndexError. On every input it behaves as on \<open>b\<close> and \<open>c\<close> cut to their first
  \<open>len(a) - 1\<close> entries: the surplus is never read. The only errors it raises are
  IndexError and ZeroDivisionError.

  \<open>descente l z\<close> returns exactly when \<open>z\<close> is not empty and \<open>l\<close> has at least
  \<open>len(z) - 1\<close> entries, and then the vector of the recurrence; in every other case it
  raises IndexError. It behaves as on \<open>l\<close> cut to its first \<open>len(z) - 1\<close> entries.

  \<open>remontee v c y\<close> returns only if \<open>y\<close> is not empty, \<open>v\<close> has at least \<open>len(y)\<close> entries
  and \<open>c\<close> at least \<open>len(y) - 1\<close>. With such vectors, however long, and the first \<open>len(y)\<close>
  entries of \<open>v\<close> nonzero it returns the vector of the recurrence, and it never raises
  IndexError. It behaves as on \<open>v\<close> and \<open>c\<close> cut to their first \<open>len(y)\<close> and
  \<open>len(y) - 1\<close> entries. The only errors it raises are IndexError and ZeroDivisionError.

  \<open>solve_poisson_boltzmann u n mu\<close> returns exactly when \<open>2 \<le> n \<le> len(u)\<close>; it raises
  ZeroDivisionError exactly when \<open>n = 0\<close>, and IndexError in every other case. It behaves
  as on \<open>u\<close> cut to its first \<open>n\<close> entries. (\<open>solve_debye_huckel\<close> takes no vector.)

  The divisions are those of \<open>py_div\<close>, on Python numbers; of a division by a zero pivot
  nothing is stated but the kind of the error.
\<close>

theorem dimensions_unchecked:
  "(lutri a b c = Inr (l, v) \<longrightarrow>
      a \<noteq> [] \<and> length a - 1 \<le> length b \<and> length a - 1 \<le> length c) \<and>
   (a \<noteq> [] \<and> length a - 1 \<le> length b \<and> length a - 1 \<le> length c \<and>
    length l = length a - 1 \<and> length v = length a \<and> v ! 0 = a ! 0 \<and>
    (\<forall>i<length a - 1. v ! i \<noteq> 0 \<and> l ! i = b ! i / v ! i \<and>
         v ! Suc i = a ! Suc i - l ! i * c ! i) \<longrightarrow>
      lutri a b c = Inr (l, v)) \<and>
   (lutri a b c = Inl e \<longrightarrow> e = IndexError \<or> e = ZeroDivisionError) \<and>
   (lutri a b c = Inl IndexError \<longrightarrow>
      a = [] \<or> length b < length a - 1 \<or> length c < length a - 1) \<and>
   lutri a b c = lutri a (take (length a - 1) b) (take (length a - 1) c) \<and>
   (descente l' z = Inr y \<longleftrightarrow>
      z \<noteq> [] \<and> length z - 1 \<le> length l' \<and> length y = length z \<and> y ! 0 = z ! 0 \<and>
      (\<forall>i<length z - 1. y ! Suc i = z ! Suc i - l' ! i * y ! i)) \<and>
   ((\<exists>y. descente l' z = Inr y) \<longleftrightarrow> z \<noteq> [] \<and> length z - 1 \<le> length l') \<and>
   (descente l' z = Inl e \<longleftrightarrow> e = IndexError \<and> (z = [] \<or> length l' < length z - 1)) \<and>
   descente l' z = descente (take (length z - 1) l') z \<and>
   (remontee v' c' y' = Inr x \<longrightarrow>
      y' \<noteq> [] \<and> length y' \<le> length v' \<and> length y' - 1 \<le> length c') \<and>
   (y' \<noteq> [] \<and> length y' \<le> length v' \<and> length y' - 1 \<le> length c' \<and>
    (\<forall>i<length y'. v' ! i \<noteq> 0) \<and> length x = length y' \<and>
    x ! (length y' - 1) = y' ! (length y' - 1) / v' ! (length y' - 1) \<and>
    (\<forall>i<length y' - 1. x ! i = (y' ! i - c' ! i * x ! Suc i) / v' ! i) \<longrightarrow>
      remontee v' c' y' = Inr x) \<and>
   (remontee v' c' y' = Inl e \<longrightarrow> e = IndexError \<or> e = ZeroDivisionError) \<and>
   (remontee v' c' y' = Inl IndexError \<longrightarrow>
      y' = [] \<or> length v' < length y' \<or> length c' < length y' - 1) \<and>
   remontee v' c' y' = remontee (take (length y') v') (take (length y' - 1) c') y' \<and>
   ((\<exists>r. solve_poisson_boltzmann u n mu = Inr r) \<longleftrightarrow> 2 \<le> n \<and> n \<le> length u) \<and>
   (solve_poisson_boltzmann u n mu = Inl e \<longleftrightarrow>
      (e = ZeroDivisionError \<and> n = 0) \<or>
      (e = IndexError \<and> 0 < n \<and> (n < 2 \<or> length u < n))) \<and>
   solve_poisson_boltzmann u n mu = solve_poisson_boltzmann (take n u) n mu"
proof -
  have d_ex: "(\<exists>y. descente l' z = Inr y) \<longleftrightarrow> z \<noteq> [] \<and> length z - 1 \<le> length l'"
    using descente_Inr [of l' z] descente_ex [of z l'] by blast
  have d_err: "descente l' z = Inl e \<longleftrightarrow> e = IndexError \<and> (z = [] \<or> length l' < length z - 1)"
  proof (cases "descente l' z")
    case (Inl e')
    with descente_Inl [OF Inl] d_ex show ?thesis by auto
  next
    case (Inr y)
    with d_ex show ?thesis by auto
  qed
  have r_idx: "remontee v' c' y' = Inl IndexError \<longrightarrow>
      y' = [] \<or> length v' < length y' \<or> length c' < length y' - 1"
  proof (rule impI, rule ccontr)
    assume err: "remontee v' c' y' = Inl IndexError"
      and "\<not> (y' = [] \<or> length v' < length y' \<or> length c' < length y' - 1)"
    then have "y' \<noteq> []" "length y' \<le> length v'" "length y' - 1 \<le> length c'" by simp_all
    from remontee_no_IndexError [OF this] err show False by simp
  qed
  have l_idx: "lutri a b c = Inl IndexError \<longrightarrow>
      a = [] \<or> length b < length a - 1 \<or> length c < length a - 1"
  proof (rule impI, rule ccontr)
    assume err: "lutri a b c = Inl IndexError"
      and "\<not> (a = [] \<or> length b < length a - 1 \<or> length c < length a - 1)"
    then have "a \<noteq> []" "length a - 1 \<le> length b" "length a - 1 \<le> length c" by simp_all
    from lutri_no_IndexError [OF this] err show False by simp
  qed
  have s_ex: "(\<exists>r. solve_poisson_boltzmann u n mu = Inr r) \<longleftrightarrow> 2 \<le> n \<and> n \<le> length u"
    using solve_poisson_boltzmann_Inr [of u n mu] solve_poisson_boltzmann_ex [of n u mu] by blast
  have s_err: "solve_poisson_boltzmann u n mu = Inl e \<longleftrightarrow>
      (e = ZeroDivisionError \<and> n = 0) \<or>
      (e = IndexError \<and> 0 < n \<and> (n < 2 \<or> length u < n))"
  proof -
    consider "n = 0" | "0 < n" "n < 2 \<or> length u < n" | "2 \<le> n" "n \<le> length u"
      by linarith
    then show ?thesis
    proof cases
      case 1
      then show ?thesis by (auto simp: solve_poisson_boltzmann_zero)
    next
      case 2
      then show ?thesis by (auto simp: solve_poisson_boltzmann_short)
    next
      case 3
      from solve_poisson_boltzmann_ex [OF 3, of mu] 3 show ?thesis by auto
    qed
  qed
  show ?thesis
    using lutri_Inr [of a b c l v] lutri_complete [of a b c l v] lutri_Inl [of a b c e]
      descente_iff [of l' z y] remontee_Inr [of v' c' y' x] remontee_complete [of y' v' c' x]
      remontee_Inl [of v' c' y' e]
    by (intro conjI l_idx lutri_take descente_take d_ex d_err r_idx remontee_take_all s_ex s_err
          solve_poisson_boltzmann_take) blast+
qed

text \<open>The theorem at vectors longer than the contract, at vectors that are too short,
  and at \<open>n = 0\<close>.\<close>

theorem dimensions_unchecked_witness:
  "lutri [2, 3] [1, 9] [1, 9] = Inr ([1 / 2], [2, 5 / 2]) \<and>
   lutri [2, 3] [1, 9] [1, 9] = lutri [2, 3] [1] [1] \<and>
   lutri [2, 3] [] [1] = Inl IndexError \<and>
   descente [1 / 2, 9] [4, 7] = Inr [4, 5] \<and>
   descente [1 / 2, 9] [4, 7] = descente [1 / 2] [4, 7] \<and>
   descente [] [1, 2] = Inl IndexError \<and>
   remontee [2, 5 / 2, 9] [1, 9] [4, 5] = Inr [1, 2] \<and>
   remontee [2, 5 / 2, 9] [1, 9] [4, 5] = remontee [2, 5 / 2] [1] [4, 5] \<and>
   remontee [2] [1] [1, 2] = Inl IndexError \<and>
   (\<exists>r. solve_poisson_boltzmann [0, 0, 7] 2 1 = Inr r) \<and>
   solve_poisson_boltzmann [0, 0, 7] 2 1 = solve_poisson_boltzmann [0, 0] 2 1 \<and>
   solve_poisson_boltzmann [0] 2 1 = Inl IndexError \<and>
   solve_poisson_boltzmann [0, 0] 0 1 = Inl ZeroDivisionError"
proof -
  note long = dimensions_unchecked [where a = "[2, 3]" and b = "[1, 9]" and c = "[1, 9]"
      and l = "[1 / 2]" and v = "[2, 5 / 2]" and e = IndexError
      and l' = "[1 / 2, 9]" and z = "[4, 7]" and y = "[4, 5]"
      and v' = "[2, 5 / 2, 9]" and c' = "[1, 9]" and y' = "[4, 5]" and x = "[1, 2]"
      and u = "[0, 0, 7]" and n = 2 and mu = 1]
  note short = dimensions_unchecked [where a = "[2, 3]" and b = "[]" and c = "[1]"
      and l = "[1 / 2]" and v = "[2, 5 / 2]" and e = IndexError
      and l' = "[]" and z = "[1, 2]" and y = "[1, 2]"
      and v' = "[2]" and c' = "[1]" and y' = "[1, 2]" and x = "[1, 2]"
      and u = "[0]" and n = 2 and mu = 1]
  note zero = dimensions_unchecked [where a = "[2, 3]" and b = "[]" and c = "[1]"
      and l = "[1 / 2]" and v = "[2, 5 / 2]" and e = ZeroDivisionError
      and l' = "[]" and z = "[1, 2]" and y = "[1, 2]"
      and v' = "[2]" and c' = "[1]" and y' = "[1, 2]" and x = "[1, 2]"
      and u = "[0, 0]" and n = 0 and mu = 1]
  have "[2, 3 :: real] \<noteq> [] \<and> length [2, 3 :: real] - 1 \<le> length [1, 9 :: real] \<and>
        length [2, 3 :: real] - 1 \<le> length [1, 9 :: real] \<and>
        length [1 / 2 :: real] = length [2, 3 :: real] - 1 \<and>
        length [2, 5 / 2 :: real] = length [2, 3 :: real] \<and> [2, 5 / 2] ! 0 = [2, 3 :: real] ! 0 \<and>
        (\<forall>i<length [2, 3 :: real] - 1. [2, 5 / 2] ! i \<noteq> (0 :: real) \<and>
            [1 / 2] ! i = [1, 9] ! i / [2, 5 / 2 :: real] ! i \<and>
            [2, 5 / 2] ! Suc i = [2, 3] ! Suc i - [1 / 2] ! i * [1, 9 :: real] ! i)"
    by simp
  with long have 1: "lutri [2, 3] [1, 9] [1, 9] = Inr ([1 / 2], [2, 5 / 2])"
    by blast
  have "lutri [2, 3] [1, 9] [1, 9] =
        lutri [2, 3] (take (length [2, 3 :: real] - 1) [1, 9]) (take (length [2, 3 :: real] - 1) [1, 9])"
    using long by (elim conjE)
  then have 2: "lutri [2, 3] [1, 9] [1, 9] = lutri [2, 3] [1] [1]" by simp
  have 3: "lutri [2, 3] [] [1] = Inl IndexError"
    by (simp add: lutri_def)
  have "[4, 7 :: real] \<noteq> [] \<and> length [4, 7 :: real] - 1 \<le> length [1 / 2, 9 :: real] \<and>
        length [4, 5 :: real] = length [4, 7 :: real] \<and> [4, 5] ! 0 = [4, 7 :: real] ! 0 \<and>
        (\<forall>i<length [4, 7 :: real] - 1.
            [4, 5] ! Suc i = [4, 7] ! Suc i - [1 / 2, 9] ! i * [4, 5 :: real] ! i)"
    by simp
  with long have 4: "descente [1 / 2, 9] [4, 7] = Inr [4, 5]"
    by blast
  have "descente [1 / 2, 9] [4, 7] = descente (take (length [4, 7 :: real] - 1) [1 / 2, 9]) [4, 7]"
    using long by (elim conjE)
  then have 5: "descente [1 / 2, 9] [4, 7] = descente [1 / 2] [4, 7]" by simp
  have "[1, 2 :: real] = [] \<or> length ([] :: real list) < length [1, 2 :: real] - 1"
    by simp
  with short have 6: "descente [] [1, 2] = Inl IndexError"
    by blast
  have "[4, 5 :: real] \<noteq> [] \<and> length [4, 5 :: real] \<le> length [2, 5 / 2, 9 :: real] \<and>
        length [4, 5 :: real] - 1 \<le> length [1, 9 :: real] \<and>
        (\<forall>i<length [4, 5 :: real]. [2, 5 / 2, 9] ! i \<noteq> (0 :: real)) \<and>
        length [1, 2 :: real] = length [4, 5 :: real] \<and>
        [1, 2] ! (length [4, 5 :: real] - 1) =
          [4, 5] ! (length [4, 5 :: real] - 1) / [2, 5 / 2, 9 :: real] ! (length [4, 5 :: real] - 1) \<and>
        (\<forall>i<length [4, 5 :: real] - 1.
            [1, 2] ! i = ([4, 5] ! i - [1, 9] ! i * [1, 2] ! Suc i) / [2, 5 / 2, 9 :: real] ! i)"
    by (simp add: less_Suc_eq)
  with long have 7: "remontee [2, 5 / 2, 9] [1, 9] [4, 5] = Inr [1, 2]"
    by blast
  have "remontee [2, 5 / 2, 9] [1, 9] [4, 5] =
        remontee (take (length [4, 5 :: real]) [2, 5 / 2, 9]) (take (length [4, 5 :: real] - 1) [1, 9])
          [4, 5]"
    using long by (elim conjE)
  then have 8: "remontee [2, 5 / 2, 9] [1, 9] [4, 5] = remontee [2, 5 / 2] [1] [4, 5]" by simp
  have 9: "remontee [2] [1] [1, 2] = Inl IndexError"
    by (simp add: remontee_def)
  from long have "(\<exists>r. solve_poisson_boltzmann [0, 0, 7] 2 1 = Inr r) \<longleftrightarrow>
        (2 :: nat) \<le> 2 \<and> 2 \<le> length [0, 0, 7 :: real]"
    by (elim conjE)
  then have 10: "\<exists>r. solve_poisson_boltzmann [0, 0, 7] 2 1 = Inr r"
    by simp
  have "solve_poisson_boltzmann [0, 0, 7] 2 1 = solve_poisson_boltzmann (take 2 [0, 0, 7]) 2 1"
    using long by (elim conjE)
  then have 11: "solve_poisson_boltzmann [0, 0, 7] 2 1 = solve_poisson_boltzmann [0, 0] 2 1"
    by (simp add: numeral_2_eq_2)
  from short have "solve_poisson_boltzmann [0] 2 1 = Inl IndexError \<longleftrightarrow>
        IndexError = ZeroDivisionError \<and> (2 :: nat) = 0 \<or>
        IndexError = IndexError \<and> (0 :: nat) < 2 \<and> ((2 :: nat) < 2 \<or> length [0 :: real] < 2)"
    by (elim conjE)
  then have 12: "solve_poisson_boltzmann [0] 2 1 = Inl IndexError"
    by simp
  from zero have "solve_poisson_boltzmann [0, 0] 0 1 = Inl ZeroDivisionError \<longleftrightarrow>
        ZeroDivisionError = ZeroDivisionError \<and> (0 :: nat) = 0 \<or>
        ZeroDivisionError = IndexError \<and> (0 :: nat) < 0 \<and>
          ((0 :: nat) < 2 \<or> length [0, 0 :: real] < 0)"
    by (elim conjE)
  then have 13: "solve_poisson_boltzmann [0, 0] 0 1 = Inl ZeroDivisionError"
    by simp
  from 1 2 3 4 5 6 7 8 9 10 11 12 13 show ?thesis by blast
qed

section \<open>The Jacobian of the Newton step\<close>

text \<open>
  C3. One Newton step is to return \<open>u_next\<close> with \<open>J (u - u_next) = F\<close>, for the
  tridiagonal Jacobian \<open>J\<close> with diagonal \<open>-2 - h\<^sup>2 cosh(u[i])\<close> and the off-diagonals
  of the linear assembler, and the residual \<open>F\<close>. The code assembles that diagonal
  and that residual, but it never stores \<open>c[0] = 2\<close>, although both other assemblers
  do and \<open>F[0]\<close> has the term \<open>2 u[1]\<close>: at \<open>n = 2\<close>, \<open>u = [0, 0]\<close>, \<open>mu = 1\<close> the
  super-diagonal it inverts is \<open>[0]\<close> where the linear assembler has \<open>[2]\<close>, and
  with the exact inverse of the assembled matrix the step returns \<open>u_next\<close> with
  \<open>J (u - u_next) = [-15 + 35 / 1458, 0]\<close>, not \<open>F = [-15, 0]\<close>.
\<close>

theorem newton_jacobian_misses_c0:
  "newton_assemble [0, 0] 2 1 = Inr ([1, 6], [7 / 12], [- 27, - 27], [0], [- 15, 0]) \<and>
   dh_assemble 2 1 = Inr ([1, 6], [7 / 12], [- 27, - 27], [2], [15, 0]) \<and>
   solve_poisson_boltzmann_newton
     (\<lambda>J. if J = [[- 27, 0], [7 / 12, - 27]]
          then Inr [[- 1 / 27, 0], [- 7 / 8748, - 1 / 27]] else Inl LinAlgError)
     [0, 0] 2 1 = Inr ([1, 6], [- 5 / 9, - 35 / 2916], [- 15, 0]) \<and>
   ebind (tridiag ([7 / 12], [- 27, - 27], [2])) (\<lambda>J.
     ebind (np_sub [0, 0] [- 5 / 9, - 35 / 2916]) (dot J)) = Inr [- 15 + 35 / 1458, 0]"
proof -
  have 1: "newton_assemble [0, 0] 2 1 = Inr ([1, 6], [7 / 12], [- 27, - 27], [0], [- 15, 0])"
    by (simp add: newton_assemble_def py_div_def Let_def numeral_2_eq_2)
  have 2: "dh_assemble 2 1 = Inr ([1, 6], [7 / 12], [- 27, - 27], [2], [15, 0])"
    by (simp add: dh_assemble_def py_div_def Let_def numeral_2_eq_2)
  have 3: "tridiag ([7 / 12], [- 27, - 27], [0]) = Inr [[- 27, 0], [7 / 12, - 27]]"
    by (simp add: tridiag_def np_diag_def np_add_def upt_rec)
  have 4: "tridiag ([7 / 12], [- 27, - 27], [2]) = Inr [[- 27, 2], [7 / 12, - 27]]"
    by (simp add: tridiag_def np_diag_def np_add_def upt_rec)
  show ?thesis
    by (simp add: solve_poisson_boltzmann_newton_def 1 2 3 4 dot_def np_sub_def)
qed

section \<open>The bisection\<close>

declare find_loop.simps [simp del]
declare uk0_loop.simps [simp del]








section \<open>The exit of the fixed-point loop\<close>

lemma uk0_loop_rule_aux:
  assumes "uk0_loop A n mu s = Inr s'" and "P s"
    and "\<forall>t t'. P t \<longrightarrow> uk0_stop t = Inr False \<longrightarrow> uk0_body A n mu t = Inr t' \<longrightarrow> P t'"
  shows "P s' \<and> uk0_stop s' = Inr True"
  using assms
proof (induction A n mu s rule: uk0_loop.induct)
  case (1 A n mu s)
  from "1.prems"(1) obtain stop where stop: "uk0_stop s = Inr stop"
    by (subst (asm) uk0_loop.simps) (auto split: sum.splits)
  show ?case
  proof (cases stop)
    case True
    with stop "1.prems"(1) have "s' = s" by (subst (asm) uk0_loop.simps) simp
    with stop True "1.prems"(2) show ?thesis by simp
  next
    case False
    with stop "1.prems"(1) obtain t where t: "uk0_body A n mu s = Inr t"
      and rest: "uk0_loop A n mu t = Inr s'"
      by (subst (asm) uk0_loop.simps) (auto split: sum.splits)
    from stop False have sf: "uk0_stop s = Inr False" by simp
    have "P t" using "1.prems"(2,3) sf t by blast
    from "1.IH" [OF stop False t rest this "1.prems"(3)] show ?thesis by blast
  qed
qed

lemma uk0_loop_rule:
  assumes "uk0_loop A n mu s = Inr s'" and "P s"
    and "\<And>t t'. P t \<Longrightarrow> uk0_stop t = Inr False \<Longrightarrow> uk0_body A n mu t = Inr t' \<Longrightarrow> P t'"
  shows "P s' \<and> uk0_stop s' = Inr True"
  by (rule uk0_loop_rule_aux [where P = P, OF assms(1,2)]) (use assms(3) in blast)

lemma uk0_stop_True:
  assumes "uk0_stop s = Inr True" "st_k s \<le> 200"
  shows "\<exists>r1 r2. norm_inf (st_ecart1 s) = Inr r1 \<and> r1 < mu1 \<and>
                 norm_inf (st_ecart2 s) = Inr r2 \<and> r2 < mu2"
  using assms by (auto simp: uk0_stop_def ebind_eq_Inr split: if_splits)

lemma uk0_body_Inr:
  assumes "uk0_body A n mu s = Inr t"
  shows "\<exists>x z au. solve_poisson_boltzmann (st_u s) n mu = Inr (x, st_u t, z) \<and>
           st_x t = Some x \<and> dot A (st_u t) = Inr au \<and> np_sub au z = Inr (st_ecart1 t) \<and>
           np_sub (st_u t) (st_u s) = Inr (st_ecart2 t) \<and> st_k t = st_k s + 1"
  using assms by (auto simp: uk0_body_def ebind_eq_Inr)

lemma uk0_last_body:
  assumes "uk0_body A n mu t = Inr t'"
  shows "uk0_last A n mu t'"
proof -
  from uk0_body_Inr [OF assms] obtain x z au where
    "solve_poisson_boltzmann (st_u t) n mu = Inr (x, st_u t', z)" "st_x t' = Some x"
    "dot A (st_u t') = Inr au" "np_sub au z = Inr (st_ecart1 t')"
    "np_sub (st_u t') (st_u t) = Inr (st_ecart2 t')" "st_k t' = st_k t + 1"
    by blast
  then show ?thesis unfolding uk0_last_def by (simp, blast)
qed

lemma calcul_uk0_Inr:
  assumes "calcul_uk0 mu = Inr (x, u, k)"
  shows "\<exists>xg u0 diags A e1 s.
           solve_debye_huckel 1000 mu = Inr (xg, u0, diags) \<and> tridiag diags = Inr A \<and>
           dot A u0 = Inr e1 \<and>
           uk0_loop A 1000 mu
             \<lparr>st_x = None, st_u = u0, st_ecart1 = e1, st_ecart2 = u0, st_k = 0\<rparr> = Inr s \<and>
           st_x s = Some x \<and> st_u s = u \<and> st_k s = k"
  using assms
  by (auto simp: calcul_uk0_def Let_def ebind_eq_Inr split: option.splits)

text \<open>
  C6. When \<open>calcul_uk0\<close> returns with an iteration count of at most 200 (the cap not
  hit), the iterate \<open>u\<close> it returns is the result of a pass of
  \<open>solve_poisson_boltzmann\<close> on a previous iterate \<open>u_prev\<close>, with right-hand side
  \<open>z\<close>, and meets both tolerances with the values of the literals \<open>10e-12\<close> and
  \<open>10e-9\<close>: the infinity norm of \<open>A u - z\<close> is below \<open>10\<^sup>-\<^sup>1\<^sup>1\<close> and that of
  \<open>u - u_prev\<close> below \<open>10\<^sup>-\<^sup>8\<close>, where \<open>A\<close> is the matrix of the linear problem built
  at initialisation.
\<close>

theorem calcul_uk0_converged:
  assumes "calcul_uk0 mu = Inr (x, u, k)" and "k \<le> 200"
  shows "\<exists>xg u0 diags A u_prev z au e1 e2 r1 r2.
           solve_debye_huckel 1000 mu = Inr (xg, u0, diags) \<and> tridiag diags = Inr A \<and>
           solve_poisson_boltzmann u_prev 1000 mu = Inr (x, u, z) \<and>
           dot A u = Inr au \<and> np_sub au z = Inr e1 \<and> norm_inf e1 = Inr r1 \<and> r1 < 1 / 10 ^ 11 \<and>
           np_sub u u_prev = Inr e2 \<and> norm_inf e2 = Inr r2 \<and> r2 < 1 / 10 ^ 8"
proof -
  from calcul_uk0_Inr [OF assms(1)] obtain xg u0 diags A e1 s where
    dh: "solve_debye_huckel 1000 mu = Inr (xg, u0, diags)" and A: "tridiag diags = Inr A" and
    loop: "uk0_loop A 1000 mu
             \<lparr>st_x = None, st_u = u0, st_ecart1 = e1, st_ecart2 = u0, st_k = 0\<rparr> = Inr s" and
    s: "st_x s = Some x" "st_u s = u" "st_k s = k"
    by blast
  have "uk0_last A 1000 mu s \<and> uk0_stop s = Inr True"
  proof (rule uk0_loop_rule [OF loop])
    show "uk0_last A 1000 mu \<lparr>st_x = None, st_u = u0, st_ecart1 = e1, st_ecart2 = u0, st_k = 0\<rparr>"
      by (simp add: uk0_last_def)
  next
    fix t t' assume "uk0_body A 1000 mu t = Inr t'"
    then show "uk0_last A 1000 mu t'" by (rule uk0_last_body)
  qed
  then have last: "uk0_last A 1000 mu s" and stop: "uk0_stop s = Inr True" by simp_all
  from uk0_stop_True [OF stop] assms(2) s obtain r1 r2 where
    "norm_inf (st_ecart1 s) = Inr r1" "r1 < mu1" "norm_inf (st_ecart2 s) = Inr r2" "r2 < mu2"
    by auto
  moreover from last s obtain u_prev z au where
    "solve_poisson_boltzmann u_prev 1000 mu = Inr (x, u, z)" "dot A u = Inr au"
    "np_sub au z = Inr (st_ecart1 s)" "np_sub u u_prev = Inr (st_ecart2 s)"
    by (auto simp: uk0_last_def)
  moreover have "mu1 = 1 / 10 ^ 11" "mu2 = 1 / 10 ^ 8" by (simp_all add: mu1_def mu2_def)
  ultimately show ?thesis using dh A by metis
qed

section \<open>The nonlinear source term\<close>

lemma g_minus: "g (- t) = - g t"
  by (simp add: g_def)

lemma g_lower_nonneg:
  assumes "0 \<le> t"
  shows "t\<^sup>2 / 4 - t / 2 \<le> g t"
proof -
  define E F where "E = exp (- t)" and "F = exp t"
  have 1: "1 + t + t\<^sup>2 / 2 \<le> F"
    unfolding F_def by (rule exp_lower_Taylor_quadratic [OF assms])
  have 2: "E \<le> 1" using assms by (simp add: E_def)
  have s: "sinh t = (F - E) / 2" unfolding E_def F_def by (rule sinh_field_def)
  show ?thesis unfolding g_def s using 1 2 by argo
qed

lemma g_lower: "t\<^sup>2 / 4 - \<bar>t\<bar> / 2 \<le> \<bar>g t\<bar>"
proof (cases "0 \<le> t")
  case True
  with g_lower_nonneg [OF True] show ?thesis by simp
next
  case False
  then have "0 \<le> - t" by simp
  from g_lower_nonneg [OF this] have "t\<^sup>2 / 4 - (- t) / 2 \<le> g (- t)" by simp
  also have "\<dots> \<le> \<bar>g t\<bar>" by (simp add: g_minus)
  finally show ?thesis using False by simp
qed

lemma g_upper_nonneg:
  assumes "0 \<le> t" "t \<le> 1"
  shows "\<bar>g t\<bar> \<le> t\<^sup>2 / 2"
proof -
  define E F where "E = exp (- t)" and "F = exp t"
  have e1: "F \<le> 1 + t + t\<^sup>2" unfolding F_def by (rule exp_bound [OF assms])
  have e2: "1 + t \<le> F" by (simp add: F_def)
  have e3: "1 - t \<le> E" using exp_ge_add_one_self [of "- t"] by (simp add: E_def)
  have "exp (- t) * (1 + t) \<le> exp (- t) * exp t"
    by (intro mult_left_mono) simp_all
  then have "exp (- t) * (1 + t) \<le> 1" by (simp add: exp_minus field_simps)
  then have "exp (- t) \<le> 1 / (1 + t)" using assms by (simp add: field_simps)
  also have "\<dots> \<le> 1 - t + t\<^sup>2"
  proof -
    have "1 \<le> (1 - t + t\<^sup>2) * (1 + t)" using assms by (simp add: algebra_simps power2_eq_square power3_eq_cube)
    then show ?thesis using assms by (simp add: field_simps)
  qed
  finally have e4: "E \<le> 1 - t + t\<^sup>2" by (simp add: E_def)
  have s: "sinh t = (F - E) / 2" unfolding E_def F_def by (rule sinh_field_def)
  have "g t \<le> t\<^sup>2 / 2" unfolding g_def s using e1 e3 by argo
  moreover have "- (t\<^sup>2 / 2) \<le> g t" unfolding g_def s using e2 e4 by argo
  ultimately show ?thesis by (simp add: abs_le_iff)
qed

lemma g_upper:
  assumes "\<bar>t\<bar> \<le> 1"
  shows "\<bar>g t\<bar> \<le> t\<^sup>2 / 2"
proof (cases "0 \<le> t")
  case True
  then show ?thesis using assms g_upper_nonneg [of t] by simp
next
  case False
  then have "\<bar>g (- t)\<bar> \<le> (- t)\<^sup>2 / 2" using assms by (intro g_upper_nonneg) simp_all
  then show ?thesis by (simp add: g_minus)
qed

section \<open>The infinity norm\<close>

lemma norm_inf_Inr:
  assumes "v \<noteq> []"
  shows "norm_inf v = Inr (Max (set (map abs v)))"
  using assms by (simp add: norm_inf_def)

lemma norm_inf_ge:
  assumes "norm_inf v = Inr r" "i < length v"
  shows "\<bar>v ! i\<bar> \<le> r"
proof -
  from assms have "v \<noteq> []" by auto
  with assms(1) have r: "r = Max (set (map abs v))" by (simp add: norm_inf_def)
  have "\<bar>v ! i\<bar> \<in> set (map abs v)" using assms(2) by (auto intro!: imageI nth_mem)
  then show ?thesis unfolding r by (intro Max_ge) simp_all
qed

lemma norm_inf_attained:
  assumes "norm_inf v = Inr r"
  shows "\<exists>i<length v. \<bar>v ! i\<bar> = r"
proof -
  from assms have ne: "v \<noteq> []" by (auto simp: norm_inf_def split: if_splits)
  with assms have r: "r = Max (set (map abs v))" by (simp add: norm_inf_def)
  have "Max (set (map abs v)) \<in> set (map abs v)" using ne by (intro Max_in) simp_all
  then show ?thesis unfolding r by (auto simp: in_set_conv_nth)
qed

lemma norm_inf_ex: "v \<noteq> [] \<Longrightarrow> \<exists>r. norm_inf v = Inr r"
  by (simp add: norm_inf_def)

lemma argmax_abs:
  fixes v :: "real list"
  assumes "v \<noteq> []"
  shows "\<exists>i<length v. \<forall>j<length v. \<bar>v ! j\<bar> \<le> \<bar>v ! i\<bar>"
proof -
  from norm_inf_ex [OF assms] obtain r where r: "norm_inf v = Inr r" by blast
  from norm_inf_attained [OF r] obtain i where "i < length v" "\<bar>v ! i\<bar> = r" by blast
  with norm_inf_ge [OF r] show ?thesis by auto
qed

lemma norm_inf_less:
  assumes "v \<noteq> []" "\<forall>i<length v. \<bar>v ! i\<bar> < c"
  shows "\<exists>r. norm_inf v = Inr r \<and> r < c"
proof -
  from norm_inf_ex [OF assms(1)] obtain r where r: "norm_inf v = Inr r" by blast
  from norm_inf_attained [OF r] assms(2) have "r < c" by auto
  with r show ?thesis by blast
qed

section \<open>The loop test\<close>

lemma uk0_stop_ecart1:
  assumes "st_k s \<le> 200" "i < length (st_ecart1 s)" "mu1 \<le> \<bar>st_ecart1 s ! i\<bar>"
  shows "uk0_stop s = Inr False"
proof -
  from assms(2) have "st_ecart1 s \<noteq> []" by auto
  from norm_inf_ex [OF this] obtain r where r: "norm_inf (st_ecart1 s) = Inr r" by blast
  from norm_inf_ge [OF r assms(2)] assms(3) have "\<not> r < mu1" by simp
  with r assms(1) show ?thesis by (simp add: uk0_stop_def)
qed

lemma uk0_stop_ecart2:
  assumes "st_k s \<le> 200" "st_ecart1 s \<noteq> []" "i < length (st_ecart2 s)"
    "mu2 \<le> \<bar>st_ecart2 s ! i\<bar>"
  shows "uk0_stop s = Inr False"
proof -
  from norm_inf_ex [OF assms(2)] obtain r1 where r1: "norm_inf (st_ecart1 s) = Inr r1" by blast
  from assms(3) have "st_ecart2 s \<noteq> []" by auto
  from norm_inf_ex [OF this] obtain r where r: "norm_inf (st_ecart2 s) = Inr r" by blast
  from norm_inf_ge [OF r assms(3)] assms(4) have "\<not> r < mu2" by simp
  with r r1 assms(1) show ?thesis by (simp add: uk0_stop_def)
qed

lemma uk0_stop_cap: "200 < st_k s \<Longrightarrow> uk0_stop s = Inr True"
  by (simp add: uk0_stop_def)

lemma uk0_stop_small:
  assumes "st_ecart1 s \<noteq> []" "\<forall>i<length (st_ecart1 s). \<bar>st_ecart1 s ! i\<bar> < mu1"
    "st_ecart2 s \<noteq> []" "\<forall>i<length (st_ecart2 s). \<bar>st_ecart2 s ! i\<bar> < mu2"
  shows "uk0_stop s = Inr True"
proof -
  from norm_inf_less [OF assms(1,2)] obtain r1 where "norm_inf (st_ecart1 s) = Inr r1" "r1 < mu1"
    by blast
  moreover from norm_inf_less [OF assms(3,4)] obtain r2 where
    "norm_inf (st_ecart2 s) = Inr r2" "r2 < mu2" by blast
  ultimately show ?thesis by (simp add: uk0_stop_def)
qed

lemma uk0_stop_ex:
  assumes "st_ecart1 s \<noteq> []" "st_ecart2 s \<noteq> []"
  shows "\<exists>stop. uk0_stop s = Inr stop"
  using norm_inf_ex [OF assms(1)] norm_inf_ex [OF assms(2)]
  by (auto simp: uk0_stop_def)

section \<open>Rows of the grid matrix\<close>

lemma grid_row_eq:
  assumes "r < n"
  shows "grid_row n x r =
           (if 0 < r then grid_b n (r - 1) else 0) * (if 0 < r then x ! (r - 1) else 0)
           - (2 + grid_h n ^ 2) * x ! r
           + (if Suc r < n then grid_c n r else 0) * (if Suc r < n then x ! Suc r else 0)"
proof -
  have "r - 1 < n - 1" if "0 < r" using that assms by simp
  moreover have "r < n - 1" if "Suc r < n" using that by simp
  ultimately show ?thesis using assms by (simp add: grid_row_def tri_row_def algebra_simps)
qed

lemma grid_offdiag:
  assumes "0 < n" "r < n"
  shows "0 \<le> (if 0 < r then grid_b n (r - 1) else 0)"
    and "0 \<le> (if Suc r < n then grid_c n r else 0)"
    and "(if 0 < r then grid_b n (r - 1) else 0) + (if Suc r < n then grid_c n r else 0) \<le> 2"
proof -
  show "0 \<le> (if 0 < r then grid_b n (r - 1) else 0)"
    using grid_b_bounds [OF assms(1), of "r - 1"] by simp
  show "0 \<le> (if Suc r < n then grid_c n r else 0)"
    using grid_c_pos [OF assms(1), of r] by simp
  show "(if 0 < r then grid_b n (r - 1) else 0) + (if Suc r < n then grid_c n r else 0) \<le> 2"
  proof (cases "0 < r")
    case True
    show ?thesis
    proof (cases "Suc r < n")
      case True
      with \<open>0 < r\<close> grid_bc_sum [of r n] show ?thesis by simp
    next
      case False
      with \<open>0 < r\<close> grid_b_bounds [OF assms(1), of "r - 1"] show ?thesis by simp
    qed
  next
    case False
    then show ?thesis by (simp add: grid_c_def)
  qed
qed

lemma grid_row_upper:
  assumes n: "0 < n" and r: "r < n" and M: "\<forall>j<n. \<bar>x ! j\<bar> \<le> M"
  shows "\<bar>grid_row n x r\<bar> \<le> (4 + grid_h n ^ 2) * M"
proof -
  define B where "B = (if 0 < r then grid_b n (r - 1) else 0)"
  define C where "C = (if Suc r < n then grid_c n r else 0)"
  define xm where "xm = (if 0 < r then x ! (r - 1) else 0)"
  define xp where "xp = (if Suc r < n then x ! Suc r else 0)"
  define H where "H = grid_h n ^ 2"
  have H: "0 \<le> H" by (simp add: H_def)
  from grid_offdiag [OF n r] have B: "0 \<le> B" and C: "0 \<le> C" and BC: "B + C \<le> 2"
    by (simp_all add: B_def C_def)
  from M r have M0: "0 \<le> M" by (meson abs_ge_zero order_trans)
  have xr: "\<bar>x ! r\<bar> \<le> M" using M r by simp
  have xm: "\<bar>xm\<bar> \<le> M" using M r M0 by (simp add: xm_def)
  have xp: "\<bar>xp\<bar> \<le> M" using M M0 by (simp add: xp_def)
  have row: "grid_row n x r = B * xm - (2 + H) * x ! r + C * xp"
    unfolding B_def C_def xm_def xp_def H_def by (rule grid_row_eq [OF r])
  have 1: "\<bar>B * xm\<bar> \<le> B * M" using B xm by (simp add: abs_mult mult_left_mono)
  have 2: "\<bar>C * xp\<bar> \<le> C * M" using C xp by (simp add: abs_mult mult_left_mono)
  have 3: "\<bar>(2 + H) * x ! r\<bar> \<le> (2 + H) * M" using H xr by (simp add: abs_mult mult_left_mono)
  have 4: "(B + C) * M \<le> 2 * M" using BC M0 by (rule mult_right_mono)
  have "\<bar>grid_row n x r\<bar> \<le> \<bar>B * xm\<bar> + \<bar>(2 + H) * x ! r\<bar> + \<bar>C * xp\<bar>"
    unfolding row by linarith
  also have "\<dots> \<le> B * M + (2 + H) * M + C * M" using 1 2 3 by linarith
  also have "\<dots> = (B + C) * M + (2 + H) * M" by (simp add: algebra_simps)
  also have "\<dots> \<le> 2 * M + (2 + H) * M" using 4 by simp
  also have "\<dots> = (4 + H) * M" by (simp add: algebra_simps)
  finally show ?thesis unfolding H_def .
qed

lemma grid_row_lower:
  assumes n: "0 < n" and r: "r < n" and M: "\<forall>j<n. \<bar>x ! j\<bar> \<le> \<bar>x ! r\<bar>"
  shows "grid_h n ^ 2 * \<bar>x ! r\<bar> \<le> \<bar>grid_row n x r\<bar>"
proof -
  define B where "B = (if 0 < r then grid_b n (r - 1) else 0)"
  define C where "C = (if Suc r < n then grid_c n r else 0)"
  define xm where "xm = (if 0 < r then x ! (r - 1) else 0)"
  define xp where "xp = (if Suc r < n then x ! Suc r else 0)"
  define H where "H = grid_h n ^ 2"
  define N where "N = \<bar>x ! r\<bar>"
  have H: "0 \<le> H" by (simp add: H_def)
  have N0: "0 \<le> N" by (simp add: N_def)
  from grid_offdiag [OF n r] have B: "0 \<le> B" and C: "0 \<le> C" and BC: "B + C \<le> 2"
    by (simp_all add: B_def C_def)
  have xm: "\<bar>xm\<bar> \<le> N" using M r by (simp add: xm_def N_def)
  have xp: "\<bar>xp\<bar> \<le> N" using M by (simp add: xp_def N_def)
  have row: "grid_row n x r = B * xm - (2 + H) * x ! r + C * xp"
    unfolding B_def C_def xm_def xp_def H_def by (rule grid_row_eq [OF r])
  have 1: "\<bar>B * xm\<bar> \<le> B * N" using B xm by (simp add: abs_mult mult_left_mono)
  have 2: "\<bar>C * xp\<bar> \<le> C * N" using C xp by (simp add: abs_mult mult_left_mono)
  have 3: "\<bar>(2 + H) * x ! r\<bar> = (2 + H) * N" using H by (simp add: abs_mult N_def)
  have 4: "(B + C) * N \<le> 2 * N" using BC N0 by (rule mult_right_mono)
  have "(2 + H) * N - B * N - C * N \<le> \<bar>(2 + H) * x ! r\<bar> - \<bar>B * xm\<bar> - \<bar>C * xp\<bar>"
    using 1 2 3 by linarith
  also have "\<dots> \<le> \<bar>grid_row n x r\<bar>" unfolding row by linarith
  finally have "(2 + H) * N - (B + C) * N \<le> \<bar>grid_row n x r\<bar>" by (simp add: algebra_simps)
  moreover have "H * N = (2 + H) * N - 2 * N" by (simp add: algebra_simps)
  ultimately have "H * N \<le> \<bar>grid_row n x r\<bar>" using 4 by linarith
  then show ?thesis unfolding H_def N_def .
qed

lemma grid_row_diff:
  assumes "r < n" "length x = n" "length y = n"
  shows "grid_row n (map2 (-) x y) r = grid_row n x r - grid_row n y r"
proof -
  have "map2 (-) x y ! j = x ! j - y ! j" if "j < n" for j using that assms by simp
  then have a: "(if 0 < r then map2 (-) x y ! (r - 1) else 0)
               = (if 0 < r then x ! (r - 1) else 0) - (if 0 < r then y ! (r - 1) else 0)"
    and b: "map2 (-) x y ! r = x ! r - y ! r"
    and c: "(if Suc r < n then map2 (-) x y ! Suc r else 0)
               = (if Suc r < n then x ! Suc r else 0) - (if Suc r < n then y ! Suc r else 0)"
    using assms(1) by auto
  show ?thesis unfolding grid_row_eq [OF assms(1)] a b c by (simp only: algebra_simps)
qed

lemma grid_dot_rows:
  assumes "2 \<le> n" "length x = n" "tridiag (grid_diags n) = Inr A"
  shows "dot A x = Inr (map (grid_row n x) [0..<n])"
proof -
  have "ebind (tridiag (map (grid_b n) [0..<n - 1], replicate n (- (2 + grid_h n ^ 2)),
                 map (grid_c n) [0..<n - 1])) (\<lambda>A. dot A x) =
          Inr (map (tri_row (map (grid_b n) [0..<n - 1]) (replicate n (- (2 + grid_h n ^ 2)))
                 (map (grid_c n) [0..<n - 1]) x) [0..<length (replicate n (- (2 + grid_h n ^ 2)))])"
    by (rule tridiag_dot) (use assms in auto)
  then show ?thesis using assms(3) by (simp add: grid_diags_def grid_row_def [abs_def])
qed

lemma grid_tridiag_ex:
  assumes "2 \<le> n"
  shows "\<exists>A. tridiag (grid_diags n) = Inr A"
  unfolding grid_diags_def by (rule exI, rule tridiag_entries) (use assms in auto)

section \<open>One pass of the fixed-point loop on the grid matrix\<close>

lemma np_sub_same_length:
  "length p = length q \<Longrightarrow> np_sub p q = Inr (map2 (-) p q)"
  by (simp add: np_sub_def)

lemma solve_debye_huckel_rows:
  assumes "2 \<le> n"
  shows "\<exists>u A. solve_debye_huckel n mu = Inr (map (grid_x n) [0..<n], u, grid_diags n) \<and>
           length u = n \<and> tridiag (grid_diags n) = Inr A \<and>
           dot A u = Inr ((replicate n 0)[0 := mu * grid_h n * (grid_h n - 2)]) \<and>
           (\<forall>r<n. grid_row n u r = (if r = 0 then mu * grid_h n * (grid_h n - 2) else 0))"
proof -
  from solve_debye_huckel_closed [OF assms, of mu] obtain u A where
    dh: "solve_debye_huckel n mu = Inr (map (grid_x n) [0..<n], u, grid_diags n)" and
    lu: "length u = n" and A: "tridiag (grid_diags n) = Inr A" and
    d: "dot A u = Inr ((replicate n 0)[0 := mu * grid_h n * (grid_h n - 2)])"
    unfolding grid_diags_def by blast
  from grid_dot_rows [OF assms lu A] d
  have eq: "map (grid_row n u) [0..<n] = (replicate n 0)[0 := mu * grid_h n * (grid_h n - 2)]"
    by simp
  have "grid_row n u r = (if r = 0 then mu * grid_h n * (grid_h n - 2) else 0)" if "r < n" for r
  proof -
    have "map (grid_row n u) [0..<n] ! r = grid_row n u r" using that by simp
    then have "grid_row n u r = (replicate n 0)[0 := mu * grid_h n * (grid_h n - 2)] ! r"
      unfolding eq by simp
    also have "\<dots> = (if r = 0 then mu * grid_h n * (grid_h n - 2) else 0)"
      using that by (auto simp: nth_list_update)
    finally show ?thesis .
  qed
  with dh lu A d show ?thesis by blast
qed

lemma uk0_body_closed:
  assumes n: "2 \<le> n" and lu: "length (st_u s) = n" and A: "tridiag (grid_diags n) = Inr A"
  shows "\<exists>u'. uk0_body A n mu s =
             Inr \<lparr>st_x = Some (map (grid_x n) [0..<n]), st_u = u',
                  st_ecart1 = replicate n 0, st_ecart2 = map2 (-) u' (st_u s),
                  st_k = st_k s + 1\<rparr> \<and>
           length u' = n \<and> (\<forall>r<n. grid_row n u' r = pb_z (st_u s) n mu r)"
proof -
  let ?z = "map (pb_z (st_u s) n mu) [0..<n]"
  from lu have le: "n \<le> length (st_u s)" by simp
  from solve_poisson_boltzmann_closed [OF n le, of mu] A obtain u' where
    pb: "solve_poisson_boltzmann (st_u s) n mu = Inr (map (grid_x n) [0..<n], u', ?z)" and
    lu': "length u' = n" and d: "dot A u' = Inr ?z"
    unfolding grid_diags_def by auto
  from grid_dot_rows [OF n lu' A] d have eq: "map (grid_row n u') [0..<n] = ?z" by simp
  have rows: "grid_row n u' r = pb_z (st_u s) n mu r" if "r < n" for r
  proof -
    have "map (grid_row n u') [0..<n] ! r = grid_row n u' r" using that by simp
    then show ?thesis unfolding eq using that by simp
  qed
  have zz: "map2 (-) ?z ?z = replicate n 0"
    by (rule nth_equalityI) simp_all
  have "uk0_body A n mu s =
             Inr \<lparr>st_x = Some (map (grid_x n) [0..<n]), st_u = u',
                  st_ecart1 = replicate n 0, st_ecart2 = map2 (-) u' (st_u s),
                  st_k = st_k s + 1\<rparr>"
    using lu lu' by (simp add: uk0_body_def pb d np_sub_same_length zz)
  with lu' rows show ?thesis by blast
qed

section \<open>The fixed-point loop returns\<close>

lemma uk0_stop_False_k: "uk0_stop s = Inr False \<Longrightarrow> st_k s \<le> 200"
  by (auto simp: uk0_stop_def split: if_splits)

lemma uk0_body_wf:
  assumes "2 \<le> n" "tridiag (grid_diags n) = Inr A" "uk0_wf n s" "st_k s \<le> 200"
  shows "\<exists>t. uk0_body A n mu s = Inr t \<and> uk0_wf n t \<and> st_k t = st_k s + 1"
proof -
  from assms(3) have lu: "length (st_u s) = n" by (simp add: uk0_wf_def)
  from uk0_body_closed [OF assms(1) lu assms(2), of mu] obtain u' where
    b: "uk0_body A n mu s =
             Inr \<lparr>st_x = Some (map (grid_x n) [0..<n]), st_u = u',
                  st_ecart1 = replicate n 0, st_ecart2 = map2 (-) u' (st_u s),
                  st_k = st_k s + 1\<rparr>" and lu': "length u' = n"
    by blast
  have "uk0_wf n \<lparr>st_x = Some (map (grid_x n) [0..<n]), st_u = u',
                  st_ecart1 = replicate n 0, st_ecart2 = map2 (-) u' (st_u s),
                  st_k = st_k s + 1\<rparr>"
    using assms(1,4) lu lu' by (auto simp: uk0_wf_def)
  with b show ?thesis by auto
qed

lemma uk0_loop_total:
  assumes "2 \<le> n" "tridiag (grid_diags n) = Inr A" "uk0_wf n s"
  shows "\<exists>s'. uk0_loop A n mu s = Inr s' \<and> uk0_wf n s' \<and> st_k s \<le> st_k s'"
  using assms(3)
proof (induction "201 - st_k s" arbitrary: s rule: less_induct)
  case less
  from less.prems have "st_ecart1 s \<noteq> []" "st_ecart2 s \<noteq> []" by (simp_all add: uk0_wf_def)
  from uk0_stop_ex [OF this] obtain stop where stop: "uk0_stop s = Inr stop" by blast
  show ?case
  proof (cases stop)
    case True
    with stop have "uk0_loop A n mu s = Inr s" by (subst uk0_loop.simps) simp
    with less.prems show ?thesis by simp
  next
    case False
    with stop have k: "st_k s \<le> 200" by (simp add: uk0_stop_False_k)
    from uk0_body_wf [OF assms(1,2) less.prems k, of mu] obtain t where
      t: "uk0_body A n mu s = Inr t" "uk0_wf n t" "st_k t = st_k s + 1" by blast
    have "201 - st_k t < 201 - st_k s" using k t(3) by simp
    from less.hyps [OF this t(2)] obtain s' where
      s': "uk0_loop A n mu t = Inr s'" "uk0_wf n s'" "st_k t \<le> st_k s'" by blast
    have "uk0_loop A n mu s = uk0_loop A n mu t"
      using stop False t(1) by (subst uk0_loop.simps) simp
    with s' t(3) show ?thesis by simp
  qed
qed

text \<open>
  C5, as amended. For every \<open>mu\<close>, \<open>calcul_uk0\<close> terminates (the loop is a total
  function, and no pass fails), and when it returns an iteration count \<open>k\<close>, then
  \<open>1 \<le> k \<le> 201\<close>: the loop is left as soon as \<open>k > 200\<close>, that is at \<open>k = 201\<close>. The
  only other outcome is the UnboundLocalError of \<open>return x, u, k\<close> when the loop
  body never ran.
\<close>

theorem calcul_uk0_bound:
  "calcul_uk0 mu = Inl UnboundLocalError \<or>
   (\<exists>x u k. calcul_uk0 mu = Inr (x, u, k) \<and> 1 \<le> k \<and> k \<le> 201)"
proof -
  have n: "(2::nat) \<le> 1000" by simp
  from solve_debye_huckel_rows [OF n, of mu] obtain u0 A where
    dh: "solve_debye_huckel 1000 mu = Inr (map (grid_x 1000) [0..<1000], u0, grid_diags 1000)" and
    lu: "length u0 = 1000" and A: "tridiag (grid_diags 1000) = Inr A" and
    d: "dot A u0 = Inr ((replicate 1000 0)[0 := mu * grid_h 1000 * (grid_h 1000 - 2)])"
    by blast
  let ?s0 = "\<lparr>st_x = None, st_u = u0,
              st_ecart1 = (replicate 1000 0)[0 := mu * grid_h 1000 * (grid_h 1000 - 2)],
              st_ecart2 = u0, st_k = 0\<rparr>"
  have "uk0_wf 1000 ?s0" using lu by (auto simp: uk0_wf_def)
  from uk0_loop_total [OF n A this, of mu] obtain s' where
    s': "uk0_loop A 1000 mu ?s0 = Inr s'" "uk0_wf 1000 s'" by blast
  have c: "calcul_uk0 mu =
      (case st_x s' of None \<Rightarrow> Inl UnboundLocalError | Some x \<Rightarrow> Inr (x, st_u s', st_k s'))"
    by (simp add: calcul_uk0_def dh A d s'(1))
  show ?thesis
  proof (cases "st_x s'")
    case None
    with c show ?thesis by simp
  next
    case (Some x)
    with s'(2) have "1 \<le> st_k s'" "st_k s' \<le> 201" by (auto simp: uk0_wf_def)
    with c Some show ?thesis by simp
  qed
qed

section \<open>A run of the fixed-point loop that hits the cap\<close>

lemma grid_h_1000: "grid_h 1000 = 1 / 100"
  by (simp add: grid_h_def)

lemma grid_h2_1000: "grid_h 1000 ^ 2 = 1 / 10000"
  by (simp add: grid_h_1000 power2_eq_square)

lemma pb_z_lower:
  assumes t: "t = u ! r"
  shows "grid_h n ^ 2 * (t\<^sup>2 / 4 - \<bar>t\<bar> / 2) - \<bar>mu * grid_h n * (grid_h n - 2)\<bar>
           \<le> \<bar>pb_z u n mu r\<bar>"
proof -
  define H where "H = grid_h n ^ 2"
  define Z where "Z = mu * grid_h n * (grid_h n - 2)"
  define G where "G = g (u ! r)"
  have H: "0 \<le> H" by (simp add: H_def)
  have "H * (t\<^sup>2 / 4 - \<bar>t\<bar> / 2) \<le> H * \<bar>G\<bar>"
    unfolding G_def t using g_lower [of "u ! r"] H by (intro mult_left_mono) simp_all
  also have "\<dots> = \<bar>H * G\<bar>" using H by (simp add: abs_mult)
  finally have 1: "H * (t\<^sup>2 / 4 - \<bar>t\<bar> / 2) \<le> \<bar>H * G\<bar>" .
  have "\<bar>H * G\<bar> - \<bar>Z\<bar> \<le> \<bar>H * G + (if r = 0 then Z else 0)\<bar>" by (cases "r = 0") auto
  with 1 have "H * (t\<^sup>2 / 4 - \<bar>t\<bar> / 2) - \<bar>Z\<bar> \<le> \<bar>H * G + (if r = 0 then Z else 0)\<bar>" by linarith
  then show ?thesis unfolding pb_z_def H_def Z_def G_def .
qed

lemma growth_step:
  assumes lu: "length u = 1000" and lu': "length u' = 1000"
    and rows: "\<forall>r<1000. grid_row 1000 u' r = pb_z u 1000 1000000000 r"
    and big: "\<exists>i<1000. 2000000 \<le> \<bar>u ! i\<bar>"
  shows "\<exists>j<1000. 2000000 \<le> \<bar>u' ! j\<bar> \<and> 2000000 \<le> \<bar>map2 (-) u' u ! j\<bar>"
proof -
  have une: "u \<noteq> []" "u' \<noteq> []" using lu lu' by auto
  from argmax_abs [OF une(1)] lu obtain i where
    i: "i < 1000" and imax: "\<forall>j<1000. \<bar>u ! j\<bar> \<le> \<bar>u ! i\<bar>" by auto
  from argmax_abs [OF une(2)] lu' obtain j where
    j: "j < 1000" and jmax: "\<forall>k<1000. \<bar>u' ! k\<bar> \<le> \<bar>u' ! j\<bar>" by auto
  define R where "R = \<bar>u ! i\<bar>"
  define M where "M = \<bar>u' ! j\<bar>"
  from big imax have R: "2000000 \<le> R" unfolding R_def by (meson order_trans)
  define P where "P = \<bar>pb_z u 1000 1000000000 i\<bar>"
  have "\<bar>grid_row 1000 u' i\<bar> \<le> (4 + grid_h 1000 ^ 2) * M"
    unfolding M_def by (rule grid_row_upper) (use i jmax in auto)
  moreover from rows i have "grid_row 1000 u' i = pb_z u 1000 1000000000 i" by simp
  ultimately have up: "P \<le> (4 + 1 / 10000) * M" by (simp only: P_def grid_h2_1000)
  have "grid_h 1000 ^ 2 * ((u ! i)\<^sup>2 / 4 - \<bar>u ! i\<bar> / 2)
          - \<bar>1000000000 * grid_h 1000 * (grid_h 1000 - 2)\<bar> \<le> \<bar>pb_z u 1000 1000000000 i\<bar>"
    by (rule pb_z_lower) simp
  moreover have "(u ! i)\<^sup>2 = R\<^sup>2" by (simp add: R_def)
  moreover have "\<bar>1000000000 * grid_h 1000 * (grid_h 1000 - 2)\<bar> = (19900000::real)"
    by (simp add: grid_h_1000)
  ultimately have low: "(1 / 10000) * (R\<^sup>2 / 4 - R / 2) - 19900000 \<le> P"
    by (simp only: P_def grid_h2_1000 R_def)
  from up low have 1: "(1 / 10000) * (R\<^sup>2 / 4 - R / 2) - 19900000 \<le> (4 + 1 / 10000) * M"
    by linarith
  have "2000000 * R \<le> R * R" using R by (intro mult_right_mono) simp_all
  then have 2: "2000000 * R \<le> R\<^sup>2" by (simp add: power2_eq_square)
  from 1 2 R have M: "2 * R \<le> M" by argo
  have "\<bar>u ! j\<bar> \<le> R" using imax j by (simp add: R_def)
  then have "M - R \<le> \<bar>u' ! j - u ! j\<bar>" unfolding M_def by linarith
  with M R have "2000000 \<le> \<bar>u' ! j - u ! j\<bar>" by linarith
  moreover have "map2 (-) u' u ! j = u' ! j - u ! j" using j lu lu' by simp
  moreover have "2000000 \<le> \<bar>u' ! j\<bar>" using M R by (simp add: M_def)
  ultimately show ?thesis using j by auto
qed

lemma uk0_big_stop:
  assumes "uk0_big s" "st_k s \<le> 200"
  shows "uk0_stop s = Inr False"
proof -
  from assms(1) obtain i where i: "i < length (st_ecart2 s)" "2000000 \<le> \<bar>st_ecart2 s ! i\<bar>"
    and ne: "st_ecart1 s \<noteq> []" by (auto simp: uk0_big_def uk0_wf_def)
  have "mu2 \<le> \<bar>st_ecart2 s ! i\<bar>" using i(2) by (simp add: mu2_def)
  from uk0_stop_ecart2 [OF assms(2) ne i(1) this] show ?thesis .
qed

lemma uk0_big_body:
  assumes A: "tridiag (grid_diags 1000) = Inr A" and big: "uk0_big s" and k: "st_k s \<le> 200"
  shows "\<exists>t. uk0_body A 1000 1000000000 s = Inr t \<and> uk0_big t \<and> st_k t = st_k s + 1"
proof -
  have n: "(2::nat) \<le> 1000" by simp
  from big have lu: "length (st_u s) = 1000" and wf: "uk0_wf 1000 s"
    and b: "\<exists>i<1000. 2000000 \<le> \<bar>st_u s ! i\<bar>" by (auto simp: uk0_big_def uk0_wf_def)
  from uk0_body_closed [OF n lu A, of "1000000000"] obtain u' where
    body: "uk0_body A 1000 1000000000 s =
             Inr \<lparr>st_x = Some (map (grid_x 1000) [0..<1000]), st_u = u',
                  st_ecart1 = replicate 1000 0, st_ecart2 = map2 (-) u' (st_u s),
                  st_k = st_k s + 1\<rparr>" and
    lu': "length u' = 1000" and rows: "\<forall>r<1000. grid_row 1000 u' r = pb_z (st_u s) 1000 1000000000 r"
    by blast
  from growth_step [OF lu lu' rows b] obtain j where
    j: "j < 1000" "2000000 \<le> \<bar>u' ! j\<bar>" "2000000 \<le> \<bar>map2 (-) u' (st_u s) ! j\<bar>" by blast
  have "uk0_big \<lparr>st_x = Some (map (grid_x 1000) [0..<1000]), st_u = u',
                  st_ecart1 = replicate 1000 0, st_ecart2 = map2 (-) u' (st_u s),
                  st_k = st_k s + 1\<rparr>"
    unfolding uk0_big_def uk0_wf_def using j lu lu' k by auto
  with body show ?thesis by auto
qed

lemma uk0_big_loop:
  assumes A: "tridiag (grid_diags 1000) = Inr A" and "uk0_big s"
  shows "\<exists>s'. uk0_loop A 1000 1000000000 s = Inr s' \<and> st_k s' = 201 \<and> st_x s' \<noteq> None"
  using assms(2)
proof (induction "201 - st_k s" arbitrary: s rule: less_induct)
  case less
  from less.prems have wf: "uk0_wf 1000 s" by (simp add: uk0_big_def)
  show ?case
  proof (cases "st_k s \<le> 200")
    case True
    from uk0_big_stop [OF less.prems True] have stop: "uk0_stop s = Inr False" .
    from uk0_big_body [OF A less.prems True] obtain t where
      t: "uk0_body A 1000 1000000000 s = Inr t" "uk0_big t" "st_k t = st_k s + 1" by blast
    have "201 - st_k t < 201 - st_k s" using True t(3) by simp
    from less.hyps [OF this t(2)] obtain s' where
      s': "uk0_loop A 1000 1000000000 t = Inr s'" "st_k s' = 201" "st_x s' \<noteq> None" by blast
    have "uk0_loop A 1000 1000000000 s = uk0_loop A 1000 1000000000 t"
      using stop t(1) by (subst uk0_loop.simps) simp
    with s' show ?thesis by simp
  next
    case False
    with wf have k: "st_k s = 201" by (simp add: uk0_wf_def)
    then have "uk0_stop s = Inr True" by (simp add: uk0_stop_cap)
    then have "uk0_loop A 1000 1000000000 s = Inr s" by (subst uk0_loop.simps) simp
    moreover from wf k have "st_x s \<noteq> None" by (auto simp: uk0_wf_def)
    ultimately show ?thesis using k by simp
  qed
qed

lemma calcul_uk0_capped: "\<exists>x u. calcul_uk0 1000000000 = Inr (x, u, 201)"
proof -
  have n: "(2::nat) \<le> 1000" by simp
  from solve_debye_huckel_rows [OF n, of "1000000000"] obtain u0 A where
    dh: "solve_debye_huckel 1000 1000000000 =
           Inr (map (grid_x 1000) [0..<1000], u0, grid_diags 1000)" and
    lu: "length u0 = 1000" and A: "tridiag (grid_diags 1000) = Inr A" and
    d: "dot A u0 = Inr ((replicate 1000 0)[0 := 1000000000 * grid_h 1000 * (grid_h 1000 - 2)])" and
    rows: "\<forall>r<1000. grid_row 1000 u0 r
             = (if r = 0 then 1000000000 * grid_h 1000 * (grid_h 1000 - 2) else 0)"
    by blast
  let ?s0 = "\<lparr>st_x = None, st_u = u0,
              st_ecart1 = (replicate 1000 0)[0 := 1000000000 * grid_h 1000 * (grid_h 1000 - 2)],
              st_ecart2 = u0, st_k = 0\<rparr>"
  have "u0 \<noteq> []" using lu by auto
  from argmax_abs [OF this] lu obtain j where
    j: "j < 1000" and jmax: "\<forall>k<1000. \<bar>u0 ! k\<bar> \<le> \<bar>u0 ! j\<bar>" by auto
  have "\<bar>grid_row 1000 u0 0\<bar> \<le> (4 + grid_h 1000 ^ 2) * \<bar>u0 ! j\<bar>"
    by (rule grid_row_upper) (use jmax in auto)
  moreover from rows have "grid_row 1000 u0 0 = 1000000000 * grid_h 1000 * (grid_h 1000 - 2)" by simp
  moreover have "\<bar>1000000000 * grid_h 1000 * (grid_h 1000 - 2)\<bar> = (19900000::real)"
    by (simp add: grid_h_1000)
  ultimately have "19900000 \<le> (4 + 1 / 10000) * \<bar>u0 ! j\<bar>"
    by (simp only: grid_h2_1000)
  then have "2000000 \<le> \<bar>u0 ! j\<bar>" by argo
  with j lu have "uk0_big ?s0" by (auto simp: uk0_big_def uk0_wf_def)
  from uk0_big_loop [OF A this] obtain s' where
    s': "uk0_loop A 1000 1000000000 ?s0 = Inr s'" "st_k s' = 201" "st_x s' \<noteq> None" by blast
  then obtain x where "st_x s' = Some x" by auto
  with s' show ?thesis by (simp add: calcul_uk0_def dh A d)
qed

text \<open>
  At \<open>mu = 10\<^sup>9\<close> every iterate has an entry of absolute value at least
  \<open>2000000\<close> and every step is at least as large, so the tolerance on the step is
  never met: the loop runs until \<open>k = 201\<close> and \<open>calcul_uk0\<close> returns that count.
\<close>

theorem calcul_uk0_returns_201:
  "map_sum id (\<lambda>(x, u, k). k) (calcul_uk0 1000000000) = Inr 201"
  using calcul_uk0_capped by auto

section \<open>A run of the fixed-point loop that converges\<close>

lemma pb_z_diff:
  "pb_z u n mu r - (if r = 0 then mu * grid_h n * (grid_h n - 2) else 0)
     = grid_h n ^ 2 * g (u ! r)"
  by (simp add: pb_z_def)

lemma calcul_uk0_small: "\<exists>x u. calcul_uk0 (1 / 1000000000) = Inr (x, u, 1)"
proof -
  define mu :: real where "mu = 1 / 1000000000"
  have n: "(2::nat) \<le> 1000" and n0: "(0::nat) < 1000" by simp_all
  have z0: "mu * grid_h 1000 * (grid_h 1000 - 2) = - (199 / 10 ^ 13)"
    by (simp add: mu_def grid_h_1000)
  from solve_debye_huckel_rows [OF n, of mu] obtain u0 A where
    dh: "solve_debye_huckel 1000 mu =
           Inr (map (grid_x 1000) [0..<1000], u0, grid_diags 1000)" and
    lu: "length u0 = 1000" and A: "tridiag (grid_diags 1000) = Inr A" and
    d: "dot A u0 = Inr ((replicate 1000 0)[0 := mu * grid_h 1000 * (grid_h 1000 - 2)])" and
    rows0: "\<forall>r<1000. grid_row 1000 u0 r
             = (if r = 0 then mu * grid_h 1000 * (grid_h 1000 - 2) else 0)"
    by blast
  let ?s0 = "\<lparr>st_x = None, st_u = u0,
              st_ecart1 = (replicate 1000 0)[0 := mu * grid_h 1000 * (grid_h 1000 - 2)],
              st_ecart2 = u0, st_k = 0\<rparr>"
  \<comment> \<open>the linear solution is small\<close>
  have "u0 \<noteq> []" using lu by auto
  from argmax_abs [OF this] lu obtain j where
    j: "j < 1000" and jmax: "\<forall>k<1000. \<bar>u0 ! k\<bar> \<le> \<bar>u0 ! j\<bar>" by auto
  have "grid_h 1000 ^ 2 * \<bar>u0 ! j\<bar> \<le> \<bar>grid_row 1000 u0 j\<bar>"
    by (rule grid_row_lower [OF n0 j]) (use jmax in auto)
  moreover have "\<bar>grid_row 1000 u0 j\<bar> \<le> 199 / 10 ^ 13"
    using rows0 j by (simp add: z0)
  ultimately have "(1 / 10000) * \<bar>u0 ! j\<bar> \<le> 199 / 10 ^ 13"
    by (simp only: grid_h2_1000)
  then have "\<bar>u0 ! j\<bar> \<le> 199 / 10 ^ 9" by simp
  with jmax have small0: "\<bar>u0 ! k\<bar> \<le> 199 / 10 ^ 9" if "k < 1000" for k
    using that by (meson order_trans)
  \<comment> \<open>the loop is entered\<close>
  have "mu1 \<le> \<bar>st_ecart1 ?s0 ! 0\<bar>" by (simp add: z0 mu1_def)
  then have stop0: "uk0_stop ?s0 = Inr False"
    by (intro uk0_stop_ecart1 [where i = 0]) simp_all
  \<comment> \<open>the first pass\<close>
  have "length (st_u ?s0) = 1000" using lu by simp
  from uk0_body_closed [OF n this A, of mu] obtain u1 where
    body: "uk0_body A 1000 mu ?s0 =
             Inr \<lparr>st_x = Some (map (grid_x 1000) [0..<1000]), st_u = u1,
                  st_ecart1 = replicate 1000 0, st_ecart2 = map2 (-) u1 u0,
                  st_k = 1\<rparr>" and
    lu1: "length u1 = 1000" and rows1: "\<forall>r<1000. grid_row 1000 u1 r = pb_z u0 1000 mu r"
    by auto
  let ?s1 = "\<lparr>st_x = Some (map (grid_x 1000) [0..<1000]), st_u = u1,
                  st_ecart1 = replicate 1000 0, st_ecart2 = map2 (-) u1 u0,
                  st_k = 1\<rparr>"
  define dv where "dv = map2 (-) u1 u0"
  have ld: "length dv = 1000" using lu lu1 by (simp add: dv_def)
  then have "dv \<noteq> []" by auto
  from argmax_abs [OF this] ld obtain r where
    r: "r < 1000" and rmax: "\<forall>k<1000. \<bar>dv ! k\<bar> \<le> \<bar>dv ! r\<bar>" by auto
  have low: "grid_h 1000 ^ 2 * \<bar>dv ! r\<bar> \<le> \<bar>grid_row 1000 dv r\<bar>"
    by (rule grid_row_lower [OF n0 r]) (use rmax in auto)
  have "grid_row 1000 dv r = grid_row 1000 u1 r - grid_row 1000 u0 r"
    unfolding dv_def by (rule grid_row_diff [OF r lu1 lu])
  also have "\<dots> = grid_h 1000 ^ 2 * g (u0 ! r)"
    using rows0 rows1 r pb_z_diff [of u0 1000 mu r] by simp
  finally have row: "grid_row 1000 dv r = grid_h 1000 ^ 2 * g (u0 ! r)" .
  have ur: "\<bar>u0 ! r\<bar> \<le> 199 / 10 ^ 9" by (rule small0 [OF r])
  then have "\<bar>u0 ! r\<bar> \<le> 1" by simp
  from g_upper [OF this] have gr: "\<bar>g (u0 ! r)\<bar> \<le> (u0 ! r)\<^sup>2 / 2" .
  define K :: real where "K = (199 / 10 ^ 9) * (199 / 10 ^ 9)"
  have "(u0 ! r)\<^sup>2 = \<bar>u0 ! r\<bar> * \<bar>u0 ! r\<bar>" by (simp add: power2_eq_square)
  also have "\<dots> \<le> (199 / 10 ^ 9) * (199 / 10 ^ 9)"
    using ur by (intro mult_mono) simp_all
  finally have "(u0 ! r)\<^sup>2 \<le> K" unfolding K_def .
  with gr have g2: "\<bar>g (u0 ! r)\<bar> \<le> K / 2" by linarith
  have K: "K / 2 < mu2" by (simp add: K_def mu2_def)
  have "\<bar>grid_row 1000 dv r\<bar> = (1 / 10000) * \<bar>g (u0 ! r)\<bar>"
    unfolding row grid_h2_1000 by (simp add: abs_mult)
  with low have "(1 / 10000) * \<bar>dv ! r\<bar> \<le> (1 / 10000) * \<bar>g (u0 ! r)\<bar>"
    by (simp only: grid_h2_1000)
  then have "\<bar>dv ! r\<bar> \<le> \<bar>g (u0 ! r)\<bar>" by simp
  with g2 K have "\<bar>dv ! r\<bar> < mu2" by linarith
  with rmax have dsmall: "\<forall>k<length dv. \<bar>dv ! k\<bar> < mu2"
    using ld by (metis le_less_trans)
  have stop1: "uk0_stop ?s1 = Inr True"
  proof (rule uk0_stop_small)
    show "st_ecart1 ?s1 \<noteq> []" by simp
    show "\<forall>i<length (st_ecart1 ?s1). \<bar>st_ecart1 ?s1 ! i\<bar> < mu1" by (simp add: mu1_def)
    show "st_ecart2 ?s1 \<noteq> []" using \<open>dv \<noteq> []\<close> by (simp add: dv_def)
    show "\<forall>i<length (st_ecart2 ?s1). \<bar>st_ecart2 ?s1 ! i\<bar> < mu2"
      using dsmall by (simp add: dv_def)
  qed
  have "uk0_loop A 1000 mu ?s0 = uk0_loop A 1000 mu ?s1"
    using stop0 body by (subst uk0_loop.simps) simp
  also have "\<dots> = Inr ?s1" using stop1 by (subst uk0_loop.simps) simp
  finally have "uk0_loop A 1000 mu ?s0 = Inr ?s1" .
  then have "calcul_uk0 mu = Inr (map (grid_x 1000) [0..<1000], u1, 1)"
    by (simp add: calcul_uk0_def dh A d)
  then show ?thesis unfolding mu_def by blast
qed

text \<open>The theorem at \<open>mu = 10\<^sup>-\<^sup>9\<close>, where the loop is left after one pass.\<close>

theorem calcul_uk0_converged_witness:
  "\<exists>x u u_prev z au e1 e2 r1 r2 xg u0 diags A.
     calcul_uk0 (1 / 1000000000) = Inr (x, u, 1) \<and>
     solve_debye_huckel 1000 (1 / 1000000000) = Inr (xg, u0, diags) \<and> tridiag diags = Inr A \<and>
     solve_poisson_boltzmann u_prev 1000 (1 / 1000000000) = Inr (x, u, z) \<and>
     dot A u = Inr au \<and> np_sub au z = Inr e1 \<and> norm_inf e1 = Inr r1 \<and> r1 < 1 / 10 ^ 11 \<and>
     np_sub u u_prev = Inr e2 \<and> norm_inf e2 = Inr r2 \<and> r2 < 1 / 10 ^ 8"
proof -
  from calcul_uk0_small obtain x u where c: "calcul_uk0 (1 / 1000000000) = Inr (x, u, 1)"
    by blast
  have k: "(1::nat) \<le> 200" by simp
  from calcul_uk0_converged [OF c k] c show ?thesis by blast
qed

end
